theory Spec2Isabelle
  imports Complex_Main "HOL-Library.Multiset" "HOL-Library.Sublist"
begin

section \<open>The embedding service of the memory search (embedding-service.ts)\<close>

text \<open>
  A shallow embedding of the class \<^verbatim>\<open>EmbeddingService\<close>. The service object becomes a
  record that every operation takes and returns; a rejected promise becomes the left
  summand of a sum type; the collaborators the class only calls (the embedding provider,
  the two batch runners, the text hash) are fields of an environment record, each one a
  function of the number of calls made before, so that a collaborator may fail first and
  succeed later.
\<close>

subsection \<open>Constants\<close>

definition EMBEDDING_BATCH_MAX_TOKENS :: nat where
  "EMBEDDING_BATCH_MAX_TOKENS = 8000"

definition EMBEDDING_APPROX_CHARS_PER_TOKEN :: nat where
  "EMBEDDING_APPROX_CHARS_PER_TOKEN = 1"

definition EMBEDDING_RETRY_MAX_ATTEMPTS :: nat where
  "EMBEDDING_RETRY_MAX_ATTEMPTS = 3"

definition EMBEDDING_RETRY_BASE_DELAY_MS :: nat where
  "EMBEDDING_RETRY_BASE_DELAY_MS = 500"

definition EMBEDDING_RETRY_MAX_DELAY_MS :: nat where
  "EMBEDDING_RETRY_MAX_DELAY_MS = 8000"

definition BATCH_FAILURE_LIMIT :: nat where
  "BATCH_FAILURE_LIMIT = 2"

definition EMBEDDING_QUERY_TIMEOUT_REMOTE_MS :: nat where
  "EMBEDDING_QUERY_TIMEOUT_REMOTE_MS = 60000"

definition EMBEDDING_QUERY_TIMEOUT_LOCAL_MS :: nat where
  "EMBEDDING_QUERY_TIMEOUT_LOCAL_MS = 5 * 60000"

definition EMBEDDING_BATCH_TIMEOUT_REMOTE_MS :: nat where
  "EMBEDDING_BATCH_TIMEOUT_REMOTE_MS = 2 * 60000"

definition EMBEDDING_BATCH_TIMEOUT_LOCAL_MS :: nat where
  "EMBEDDING_BATCH_TIMEOUT_LOCAL_MS = 10 * 60000"

subsection \<open>Data\<close>

text \<open>A vector is the provider's \<^verbatim>\<open>number[]\<close>; the service never computes with its entries.\<close>

type_synonym vector = "real list"

text \<open>
  \<^verbatim>\<open>MemoryChunk\<close>. A string is the list of its code units, so \<open>length\<close> is \<^verbatim>\<open>.length\<close>;
  the field \<^verbatim>\<open>text\<close> is written \<open>text'\<close>.
\<close>

record chunk =
  text' :: string
  hash :: string
  startLine :: nat
  endLine :: nat


text \<open>\<^verbatim>\<open>FileEntry\<close> and \<^verbatim>\<open>MemorySource\<close>; only the path enters the custom IDs.\<close>

record FileEntry =
  path :: string
  absPath :: string
  mtimeMs :: nat
  entry_size :: nat
  entry_hash :: string

datatype MemorySource = Memory | Sessions

text \<open>
  A thrown value. \<^verbatim>\<open>catch (err)\<close> binds whatever was thrown or rejected: an object (an
  \<^verbatim>\<open>Error\<close> as a rule), a primitive (a string, a number, ...), \<^verbatim>\<open>null\<close> or \<^verbatim>\<open>undefined\<close>.
  An object carries the string that \<^verbatim>\<open>err instanceof Error ? err.message : String(err)\<close>
  gives for it and its property \<^verbatim>\<open>batchAttempts\<close>; a primitive carries its \<^verbatim>\<open>typeof\<close>
  and \<^verbatim>\<open>String(err)\<close>.
\<close>

datatype js_error = ErrorObject string "nat option" | Primitive string string | Null | Undefined

text \<open>\<^verbatim>\<open>err instanceof Error ? err.message : String(err)\<close>.\<close>

fun message :: "js_error \<Rightarrow> string" where
  "message (ErrorObject m a) = m"
| "message (Primitive ty str) = str"
| "message Null = ''null''"
| "message Undefined = ''undefined''"

text \<open>
  The module is an ES module, hence strict code: reading a property of \<^verbatim>\<open>null\<close> or
  \<^verbatim>\<open>undefined\<close> throws a \<^verbatim>\<open>TypeError\<close>, and so does assigning one to them or to a
  primitive. A primitive has no property \<^verbatim>\<open>batchAttempts\<close>, so reading it gives
  \<^verbatim>\<open>undefined\<close>. The messages of the \<^verbatim>\<open>TypeError\<close>s are those of V8.
\<close>

definition quoted :: "string \<Rightarrow> string" where
  "quoted str = [CHR 0x27] @ str @ [CHR 0x27]"

fun getBatchAttempts :: "js_error \<Rightarrow> js_error + nat option" where
  "getBatchAttempts (ErrorObject m a) = Inr a"
| "getBatchAttempts (Primitive ty str) = Inr None"
| "getBatchAttempts Null =
     Inl (ErrorObject (''Cannot read properties of null (reading '' @ quoted ''batchAttempts'' @ '')'') None)"
| "getBatchAttempts Undefined =
     Inl (ErrorObject (''Cannot read properties of undefined (reading '' @ quoted ''batchAttempts'' @ '')'') None)"

fun setBatchAttempts :: "js_error \<Rightarrow> nat \<Rightarrow> js_error + js_error" where
  "setBatchAttempts (ErrorObject m a) n = Inr (ErrorObject m (Some n))"
| "setBatchAttempts (Primitive ty str) n =
     Inl (ErrorObject (''Cannot create property '' @ quoted ''batchAttempts'' @ '' on '' @ ty @ '' '' @
                       quoted str) None)"
| "setBatchAttempts Null n =
     Inl (ErrorObject (''Cannot set properties of null (setting '' @ quoted ''batchAttempts'' @ '')'') None)"
| "setBatchAttempts Undefined n =
     Inl (ErrorObject (''Cannot set properties of undefined (setting '' @ quoted ''batchAttempts'' @ '')'') None)"

text \<open>
  How a provider promise behaves against the timer of \<^verbatim>\<open>withTimeout\<close>: it settles
  before the timer fires, or only after it (\<open>Late\<close>, with what it then settles to).
\<close>

datatype 'a outcome = Resolved 'a | Rejected js_error | Late "js_error + 'a"

text \<open>
  A row of the table \<^verbatim>\<open>embedding_cache\<close>. The column \<^verbatim>\<open>embedding\<close> holds
  \<^verbatim>\<open>JSON.stringify(embedding)\<close> and is read back with \<^verbatim>\<open>parseEmbedding\<close>.

  Modelled from the spec: \<^verbatim>\<open>parseEmbedding\<close> (internal.js) is not part of the sources at
  hand; the cache "maps (provider, model, providerKey, contentHash) to a vector", so the
  column is modelled as the vector itself, read back unchanged.
\<close>

record cache_row =
  row_provider :: string
  row_model :: string
  row_provider_key :: string
  row_hash :: string
  row_embedding :: vector
  row_dims :: "nat option"
  row_updated_at :: int

text \<open>The requests handed to the two batch runners.\<close>

record OpenAiBatchRequest =
  custom_id :: string
  http_method :: string
  body_model :: string
  body_input :: string

record GeminiBatchRequest =
  g_custom_id :: string
  content_text :: string
  taskType :: string

text \<open>
  The service object. The fields up to \<open>agentId\<close> are the configuration, the next three
  the failure counter of the circuit breaker, \<open>db\<close> the cache table in rowid order and
  \<open>txn\<close> the rows saved by an open transaction. \<open>clock\<close> is what \<^verbatim>\<open>Date.now()\<close> returns.
  The last four fields are not in the source: they count the calls made to each
  collaborator, so that "no provider call" can be stated.
\<close>

record service =
  provider_id :: string
  provider_model :: string
  providerKey :: string
  openAi :: "string option"
  gemini :: "string option"
  cache_enabled :: bool
  cache_maxEntries :: "int option"
  batch_enabled :: bool
  batch_wait :: bool
  batch_concurrency :: nat
  batch_pollIntervalMs :: nat
  batch_timeoutMs :: nat
  agentId :: string
  batchFailureCount :: nat
  batchFailureLastError :: "string option"
  batchFailureLastProvider :: "string option"
  db :: "cache_row list"
  txn :: "cache_row list option"
  clock :: int
  embedBatch_calls :: nat
  embedQuery_calls :: nat
  openAiBatch_calls :: nat
  geminiBatch_calls :: nat

text \<open>
  The collaborators. Each takes the number of calls made to it before, so that its
  answers may change from call to call. A batch runner resolves to a map from custom ID
  to vector, kept as the list of its entries in iteration order.
\<close>

record env =
  provider_embedBatch :: "nat \<Rightarrow> string list \<Rightarrow> vector list outcome"
  provider_embedQuery :: "nat \<Rightarrow> string \<Rightarrow> vector outcome"
  runOpenAiEmbeddingBatches :: "nat \<Rightarrow> OpenAiBatchRequest list \<Rightarrow> js_error + (string \<times> vector) list"
  runGeminiEmbeddingBatches :: "nat \<Rightarrow> GeminiBatchRequest list \<Rightarrow> js_error + (string \<times> vector) list"
  hashText :: "string \<Rightarrow> string"

subsection \<open>Strings\<close>

text \<open>Decimal rendering of a number inside a template string.\<close>

definition digit_char :: "nat \<Rightarrow> char" where
  "digit_char d = ''0123456789'' ! (d mod 10)"

function show_nat :: "nat \<Rightarrow> string" where
  "show_nat n = (if n < 10 then [digit_char n] else show_nat (n div 10) @ [digit_char (n mod 10)])"
  by pat_completeness auto
termination
  by (relation "measure (\<lambda>n. n)") auto

declare show_nat.simps [simp del]

text \<open>The flag \<^verbatim>\<open>/i\<close> on an ASCII pattern: fold the ASCII capitals of the subject.\<close>

definition lower_char :: "char \<Rightarrow> char" where
  "lower_char c =
     (case map_of (zip ''ABCDEFGHIJKLMNOPQRSTUVWXYZ'' ''abcdefghijklmnopqrstuvwxyz'') c of
        Some d \<Rightarrow> d | None \<Rightarrow> c)"

definition lower :: "string \<Rightarrow> string" where
  "lower s = map lower_char s"

definition is_digit :: "char \<Rightarrow> bool" where
  "is_digit c \<longleftrightarrow> c \<in> set ''0123456789''"

fun containsStr :: "string \<Rightarrow> string \<Rightarrow> bool" where
  "containsStr p [] = (p = [])"
| "containsStr p (c # cs) = (prefix p (c # cs) \<or> containsStr p cs)"

text \<open>The alternative \<^verbatim>\<open>5\d\d\<close>.\<close>

fun has5xx :: "string \<Rightarrow> bool" where
  "has5xx (a # b # c # cs) = ((a = CHR ''5'' \<and> is_digit b \<and> is_digit c) \<or> has5xx (b # c # cs))"
| "has5xx _ = False"

definition isRetryableEmbeddingError :: "string \<Rightarrow> bool" where
  "isRetryableEmbeddingError msg =
     (let m = lower msg in
        containsStr ''rate_limit'' m \<or> containsStr ''rate limit'' m \<or>
        containsStr ''too many requests'' m \<or> containsStr ''429'' m \<or>
        containsStr ''resource has been exhausted'' m \<or> has5xx m \<or>
        containsStr ''cloudflare'' m)"

definition isBatchTimeoutError :: "string \<Rightarrow> bool" where
  "isBatchTimeoutError msg =
     (let m = lower msg in containsStr ''timed out'' m \<or> containsStr ''timeout'' m)"

text \<open>The test \<^verbatim>\<open>/asyncBatchEmbedContent not available/i\<close> of \<^verbatim>\<open>runBatchWithFallback\<close>.\<close>

definition isForceDisableError :: "string \<Rightarrow> bool" where
  "isForceDisableError msg = containsStr (lower ''asyncBatchEmbedContent not available'') (lower msg)"

subsection \<open>Token-budget batching\<close>

definition estimateEmbeddingTokens :: "string \<Rightarrow> nat" where
  "estimateEmbeddingTokens t =
     (if t = [] then 0
      else (length t + EMBEDDING_APPROX_CHARS_PER_TOKEN - 1) div EMBEDDING_APPROX_CHARS_PER_TOKEN)"

text \<open>
  One iteration of the \<^verbatim>\<open>for (const chunk of chunks)\<close> loop of
  \<^verbatim>\<open>buildEmbeddingBatches\<close> over the loop variables
  \<^verbatim>\<open>batches\<close>, \<^verbatim>\<open>current\<close>, \<^verbatim>\<open>currentTokens\<close>.
\<close>

definition buildStep ::
  "chunk list list \<times> chunk list \<times> nat \<Rightarrow> chunk \<Rightarrow> chunk list list \<times> chunk list \<times> nat" where
  "buildStep st c =
     (case st of (batches, current, currentTokens) \<Rightarrow>
        let estimate = estimateEmbeddingTokens (text' c);
            wouldExceed = (current \<noteq> [] \<and> currentTokens + estimate > EMBEDDING_BATCH_MAX_TOKENS);
            batches1 = (if wouldExceed then batches @ [current] else batches);
            current1 = (if wouldExceed then [] else current);
            currentTokens1 = (if wouldExceed then 0 else currentTokens)
        in if current1 = [] \<and> estimate > EMBEDDING_BATCH_MAX_TOKENS
           then (batches1 @ [[c]], current1, currentTokens1)
           else (batches1, current1 @ [c], currentTokens1 + estimate))"

definition buildEmbeddingBatches :: "chunk list \<Rightarrow> chunk list list" where
  "buildEmbeddingBatches chunks =
     (case foldl buildStep ([], [], 0) chunks of (batches, current, currentTokens) \<Rightarrow>
        if current \<noteq> [] then batches @ [current] else batches)"

text \<open>The summed token estimate of a bin.\<close>

definition binTokens :: "chunk list \<Rightarrow> nat" where
  "binTokens b = sum_list (map (\<lambda>c. estimateEmbeddingTokens (text' c)) b)"

text \<open>A bin is within budget, or it holds one chunk that alone exceeds the budget.\<close>

definition binOk :: "chunk list \<Rightarrow> bool" where
  "binOk b \<longleftrightarrow>
     b \<noteq> [] \<and>
     (binTokens b \<le> EMBEDDING_BATCH_MAX_TOKENS \<or>
      (length b = 1 \<and> estimateEmbeddingTokens (text' (hd b)) > EMBEDDING_BATCH_MAX_TOKENS))"

text \<open>The loop invariant of \<^verbatim>\<open>buildEmbeddingBatches\<close>.\<close>

definition buildInv :: "chunk list \<Rightarrow> chunk list list \<times> chunk list \<times> nat \<Rightarrow> bool" where
  "buildInv pre st \<longleftrightarrow>
     (case st of (batches, current, currentTokens) \<Rightarrow>
        concat batches @ current = pre \<and>
        currentTokens = binTokens current \<and>
        currentTokens \<le> EMBEDDING_BATCH_MAX_TOKENS \<and>
        (\<forall>b \<in> set batches. binOk b))"


subsection \<open>Timeouts and the retry loop\<close>

definition resolveEmbeddingTimeout :: "service \<Rightarrow> bool \<Rightarrow> nat" where
  \<comment> \<open>the flag is \<^verbatim>\<open>kind === "query"\<close>\<close>
  "resolveEmbeddingTimeout s isQuery =
     (let isLocal = (provider_id s = ''local'') in
        if isQuery
        then (if isLocal then EMBEDDING_QUERY_TIMEOUT_LOCAL_MS else EMBEDDING_QUERY_TIMEOUT_REMOTE_MS)
        else (if isLocal then EMBEDDING_BATCH_TIMEOUT_LOCAL_MS else EMBEDDING_BATCH_TIMEOUT_REMOTE_MS))"

text \<open>
  \<^verbatim>\<open>withTimeout\<close>: without a positive timeout the promise is awaited as it is; otherwise
  the timer wins against a promise that is late.
\<close>

definition withTimeout :: "'a outcome \<Rightarrow> nat \<Rightarrow> string \<Rightarrow> js_error + 'a" where
  "withTimeout p timeoutMs msg =
     (case p of
        Resolved v \<Rightarrow> Inr v
      | Rejected e \<Rightarrow> Inl e
      | Late r \<Rightarrow> if timeoutMs \<le> 0 then r else Inl (ErrorObject msg None))"

text \<open>\<^verbatim>\<open>Math.round(timeoutMs / 1000)\<close> on a natural number.\<close>

definition roundSeconds :: "nat \<Rightarrow> nat" where
  "roundSeconds ms = (ms + 500) div 1000"

text \<open>
  The \<^verbatim>\<open>while (true)\<close> loop of \<^verbatim>\<open>embedBatchWithRetry\<close> over its variable
  \<^verbatim>\<open>attempt\<close>. The sleep between two attempts (and \<^verbatim>\<open>delayMs\<close>, which only sets its
  length) does not change what is called or returned and is left out.
\<close>

function retryLoop :: "env \<Rightarrow> string list \<Rightarrow> nat \<Rightarrow> service \<Rightarrow> (js_error + vector list) \<times> service" where
  "retryLoop e texts attempt s =
     (let timeoutMs = resolveEmbeddingTimeout s False;
          s1 = s\<lparr>embedBatch_calls := embedBatch_calls s + 1\<rparr>
      in case withTimeout (provider_embedBatch e (embedBatch_calls s) texts) timeoutMs
                (''memory embeddings batch timed out after '' @ show_nat (roundSeconds timeoutMs) @ ''s'') of
           Inr vs \<Rightarrow> (Inr vs, s1)
         | Inl err \<Rightarrow>
             if \<not> isRetryableEmbeddingError (message err) \<or> attempt \<ge> EMBEDDING_RETRY_MAX_ATTEMPTS
             then (Inl err, s1)
             else retryLoop e texts (attempt + 1) s1)"
  by pat_completeness auto
termination
  by (relation "measure (\<lambda>(e, texts, attempt, s). EMBEDDING_RETRY_MAX_ATTEMPTS - attempt)") auto

declare retryLoop.simps [simp del]

definition embedBatchWithRetry :: "env \<Rightarrow> string list \<Rightarrow> service \<Rightarrow> (js_error + vector list) \<times> service" where
  "embedBatchWithRetry e texts s = (if texts = [] then (Inr [], s) else retryLoop e texts 0 s)"

subsection \<open>The cache table\<close>

text \<open>The deduplication loop of \<^verbatim>\<open>loadEmbeddingCache\<close>; \<^verbatim>\<open>seen\<close> is the set of \<^verbatim>\<open>unique\<close>.\<close>

definition uniqueStep :: "string list \<Rightarrow> string \<Rightarrow> string list" where
  "uniqueStep unique h = (if h = [] then unique else if h \<in> set unique then unique else unique @ [h])"

text \<open>The \<^verbatim>\<open>SELECT hash, embedding ... WHERE provider = ? AND ... AND hash IN (...)\<close>.\<close>

definition selectRows :: "service \<Rightarrow> string list \<Rightarrow> cache_row list" where
  "selectRows s batch =
     filter (\<lambda>r. row_provider r = provider_id s \<and> row_model r = provider_model s \<and>
                 row_provider_key r = providerKey s \<and> row_hash r \<in> set batch) (db s)"

function loadLoop :: "service \<Rightarrow> string list \<Rightarrow> nat \<Rightarrow> (string \<rightharpoonup> vector) \<Rightarrow> (string \<rightharpoonup> vector)" where
  "loadLoop s unique start out =
     (if start < length unique
      then let batch = take 400 (drop start unique);
               rows = selectRows s batch
           in loadLoop s unique (start + 400)
                (foldl (\<lambda>m r. m(row_hash r \<mapsto> row_embedding r)) out rows)
      else out)"
  by pat_completeness auto
termination
  by (relation "measure (\<lambda>(s, unique, start, out). length unique - start)") auto

declare loadLoop.simps [simp del]

definition loadEmbeddingCache :: "service \<Rightarrow> string list \<Rightarrow> (string \<rightharpoonup> vector)" where
  "loadEmbeddingCache s hashes =
     (if \<not> cache_enabled s then Map.empty
      else if hashes = [] then Map.empty
      else let unique = foldl uniqueStep [] hashes
           in if unique = [] then Map.empty else loadLoop s unique 0 Map.empty)"

text \<open>
  \<^verbatim>\<open>INSERT ... ON CONFLICT(provider, model, provider_key, hash) DO UPDATE SET
  embedding, dims, updated_at\<close>: the row with the key of the new one is overwritten where
  it stands; without such a row the new one is appended.
\<close>

definition sameKey :: "cache_row \<Rightarrow> cache_row \<Rightarrow> bool" where
  "sameKey a b \<longleftrightarrow>
     row_provider a = row_provider b \<and> row_model a = row_model b \<and>
     row_provider_key a = row_provider_key b \<and> row_hash a = row_hash b"

definition rowKey :: "cache_row \<Rightarrow> string \<times> string \<times> string \<times> string" where
  "rowKey r = (row_provider r, row_model r, row_provider_key r, row_hash r)"

definition upsertRow :: "cache_row list \<Rightarrow> cache_row \<Rightarrow> cache_row list" where
  "upsertRow rows new =
     (if \<exists>r \<in> set rows. sameKey r new
      then map (\<lambda>r. if sameKey r new
                     then r\<lparr>row_embedding := row_embedding new, row_dims := row_dims new,
                            row_updated_at := row_updated_at new\<rparr>
                     else r) rows
      else rows @ [new])"

definition entryRow :: "service \<Rightarrow> int \<Rightarrow> string \<times> vector \<Rightarrow> cache_row" where
  "entryRow s now entry =
     \<lparr>row_provider = provider_id s, row_model = provider_model s, row_provider_key = providerKey s,
      row_hash = fst entry, row_embedding = snd entry, row_dims = Some (length (snd entry)),
      row_updated_at = now\<rparr>"

definition upsertEmbeddingCache :: "(string \<times> vector) list \<Rightarrow> service \<Rightarrow> service" where
  "upsertEmbeddingCache entries s =
     (if \<not> cache_enabled s then s
      else if entries = [] then s
      else let now = clock s
           in s\<lparr>db := foldl (\<lambda>rows entry. upsertRow rows (entryRow s now entry)) (db s) entries\<rparr>)"

subsection \<open>The inline path\<close>

text \<open>
  The loop that sorts the chunks into cache hits and misses; the source has it three
  times, letter for letter, in \<^verbatim>\<open>embedChunksInBatches\<close>, \<^verbatim>\<open>embedChunksWithOpenAiBatch\<close>
  and \<^verbatim>\<open>embedChunksWithGeminiBatch\<close>. An index is always below the length of
  \<^verbatim>\<open>embeddings\<close>, so the assignment never extends the array.
\<close>

definition splitStep ::
  "(string \<rightharpoonup> vector) \<Rightarrow> vector list \<times> (nat \<times> chunk) list \<Rightarrow> nat \<times> chunk \<Rightarrow>
   vector list \<times> (nat \<times> chunk) list" where
  "splitStep cached acc ic =
     (case acc of (embeddings, missing) \<Rightarrow>
      case ic of (i, c) \<Rightarrow>
        let hit = (if hash c \<noteq> [] then cached (hash c) else None)
        in case hit of
             Some v \<Rightarrow> if length v > 0 then (embeddings[i := v], missing)
                       else (embeddings, missing @ [(i, c)])
           | None \<Rightarrow> (embeddings, missing @ [(i, c)]))"

definition splitCached ::
  "(string \<rightharpoonup> vector) \<Rightarrow> chunk list \<Rightarrow> vector list \<times> (nat \<times> chunk) list" where
  "splitCached cached chunks =
     foldl (splitStep cached) (replicate (length chunks) [], []) (zip [0..<length chunks] chunks)"

text \<open>
  The inner loop over one bin: \<^verbatim>\<open>missing[cursor + i]\<close> may be absent and
  \<^verbatim>\<open>batchEmbeddings[i] ?? []\<close> covers a provider answer that is too short.
\<close>

definition assignStep ::
  "(nat \<times> chunk) list \<Rightarrow> nat \<Rightarrow> vector list \<Rightarrow> vector list \<times> (string \<times> vector) list \<Rightarrow> nat \<Rightarrow>
   vector list \<times> (string \<times> vector) list" where
  "assignStep missing cursor batchEmbeddings acc i =
     (case acc of (embeddings, toCache) \<Rightarrow>
        let embedding = (if i < length batchEmbeddings then batchEmbeddings ! i else [])
        in if cursor + i < length missing
           then (case missing ! (cursor + i) of (index, c) \<Rightarrow>
                   (embeddings[index := embedding], toCache @ [(hash c, embedding)]))
           else (embeddings, toCache))"

fun embedBins ::
  "env \<Rightarrow> (nat \<times> chunk) list \<Rightarrow> chunk list list \<Rightarrow> nat \<Rightarrow> vector list \<Rightarrow> (string \<times> vector) list \<Rightarrow>
   service \<Rightarrow> (js_error + vector list \<times> (string \<times> vector) list) \<times> service" where
  "embedBins e missing [] cursor embeddings toCache s = (Inr (embeddings, toCache), s)"
| "embedBins e missing (batch # batches) cursor embeddings toCache s =
     (case embedBatchWithRetry e (map text' batch) s of
        (Inl err, s1) \<Rightarrow> (Inl err, s1)
      | (Inr batchEmbeddings, s1) \<Rightarrow>
          (case foldl (assignStep missing cursor batchEmbeddings) (embeddings, toCache)
                  [0..<length batch] of
             (embeddings1, toCache1) \<Rightarrow>
               embedBins e missing batches (cursor + length batch) embeddings1 toCache1 s1))"

definition embedChunksInBatches :: "env \<Rightarrow> chunk list \<Rightarrow> service \<Rightarrow> (js_error + vector list) \<times> service" where
  "embedChunksInBatches e chunks s =
     (if chunks = [] then (Inr [], s)
      else let cached = loadEmbeddingCache s (map hash chunks)
           in case splitCached cached chunks of (embeddings, missing) \<Rightarrow>
                if missing = [] then (Inr embeddings, s)
                else let missingChunks = map snd missing;
                         batches = buildEmbeddingBatches missingChunks
                     in case embedBins e missing batches 0 embeddings [] s of
                          (Inl err, s1) \<Rightarrow> (Inl err, s1)
                        | (Inr (embeddings1, toCache), s1) \<Rightarrow>
                            (Inr embeddings1, upsertEmbeddingCache toCache s1))"

subsection \<open>What the cache holds for a chunk\<close>

text \<open>
  The vector that the table holds under the key of the service and a hash: the one of
  the last row with that key (the unique constraint admits one such row at most).
\<close>

definition cachedVector :: "service \<Rightarrow> string \<Rightarrow> vector option" where
  "cachedVector s h =
     (case filter (\<lambda>r. row_provider r = provider_id s \<and> row_model r = provider_model s \<and>
                        row_provider_key r = providerKey s \<and> row_hash r = h) (db s) of
        [] \<Rightarrow> None
      | r # rs \<Rightarrow> Some (row_embedding (last (r # rs))))"

text \<open>
  A chunk can be served from the cache: its hash is not empty and the vector found for
  it is not empty.
\<close>

definition servedFromCache :: "(string \<rightharpoonup> vector) \<Rightarrow> chunk \<Rightarrow> bool" where
  "servedFromCache cached c \<longleftrightarrow>
     hash c \<noteq> [] \<and> (case cached (hash c) of None \<Rightarrow> False | Some v \<Rightarrow> v \<noteq> [])"

text \<open>
  The provider computes the embedding function \<open>f\<close>: whenever a call of
  \<^verbatim>\<open>embedBatch\<close> resolves, it resolves to the vectors of the texts, in their order.
\<close>

definition providerAnswers :: "env \<Rightarrow> (string \<Rightarrow> vector) \<Rightarrow> bool" where
  "providerAnswers e f \<longleftrightarrow>
     (\<forall>n texts vs. provider_embedBatch e n texts = Resolved vs \<longrightarrow> vs = map f texts)"

text \<open>
  The vector that the caller is owed for a chunk: the cached one where the chunk can be
  served from the cache, the provider's otherwise.
\<close>

definition vectorFor :: "(string \<rightharpoonup> vector) \<Rightarrow> (string \<Rightarrow> vector) \<Rightarrow> chunk \<Rightarrow> vector" where
  "vectorFor cached f c = (if servedFromCache cached c then the (cached (hash c)) else f (text' c))"

text \<open>
  A batch runner computes \<open>f\<close>: the map it resolves to has one entry for every
  request, the custom ID of the request with the vector of its text, and no others.
  A request is given here by its custom ID and its text.
\<close>

definition answersRequests ::
  "(string \<Rightarrow> vector) \<Rightarrow> (string \<times> string) list \<Rightarrow> (string \<times> vector) list \<Rightarrow> bool" where
  "answersRequests f reqs kvs \<longleftrightarrow>
     (\<forall>req \<in> set reqs. (fst req, f (snd req)) \<in> set kvs) \<and>
     (\<forall>kv \<in> set kvs. \<exists>req \<in> set reqs. fst kv = fst req \<and> snd kv = f (snd req))"

definition runnersAnswer :: "env \<Rightarrow> (string \<Rightarrow> vector) \<Rightarrow> bool" where
  "runnersAnswer e f \<longleftrightarrow>
     (\<forall>n reqs kvs. runOpenAiEmbeddingBatches e n reqs = Inr kvs \<longrightarrow>
        answersRequests f (map (\<lambda>r. (custom_id r, body_input r)) reqs) kvs) \<and>
     (\<forall>n reqs kvs. runGeminiEmbeddingBatches e n reqs = Inr kvs \<longrightarrow>
        answersRequests f (map (\<lambda>r. (g_custom_id r, content_text r)) reqs) kvs)"

text \<open>Two services read the same cache: same table, same key, caching on in both or off in both.\<close>

definition sameCache :: "service \<Rightarrow> service \<Rightarrow> bool" where
  "sameCache s t \<longleftrightarrow>
     db t = db s \<and> cache_enabled t = cache_enabled s \<and> provider_id t = provider_id s \<and>
     provider_model t = provider_model s \<and> providerKey t = providerKey s"

text \<open>
  The writes \<^verbatim>\<open>embeddings[index] = embedding\<close> of a loop, in the order in which it makes
  them: each is the index, the hash that goes on the list \<^verbatim>\<open>toCache\<close> with it, and the
  vector.
\<close>

definition writeAll :: "vector list \<Rightarrow> (nat \<times> string \<times> vector) list \<Rightarrow> vector list" where
  "writeAll embeddings ws = foldl (\<lambda>em w. em[fst w := snd (snd w)]) embeddings ws"

subsection \<open>The circuit breaker\<close>

text \<open>
  \<^verbatim>\<open>withBatchFailureLock\<close> serialises the bodies below; one call at a time is what the
  state passing gives, so the lock is not a definition of its own.
\<close>

definition resetBatchFailureCount :: "service \<Rightarrow> service" where
  "resetBatchFailureCount s =
     s\<lparr>batchFailureCount := 0, batchFailureLastError := None, batchFailureLastProvider := None\<rparr>"

text \<open>The result is \<^verbatim>\<open>{ disabled, count }\<close> and the service after the call.\<close>

definition recordBatchFailure ::
  "string \<Rightarrow> string \<Rightarrow> nat option \<Rightarrow> bool \<Rightarrow> service \<Rightarrow> (bool \<times> nat) \<times> service" where
  "recordBatchFailure provider msg attempts forceDisable s =
     (if \<not> batch_enabled s then ((True, batchFailureCount s), s)
      else let increment = (if forceDisable then BATCH_FAILURE_LIMIT
                            else max 1 (case attempts of None \<Rightarrow> 1 | Some a \<Rightarrow> a));
               s1 = s\<lparr>batchFailureCount := batchFailureCount s + increment,
                      batchFailureLastError := Some msg,
                      batchFailureLastProvider := Some provider\<rparr>;
               disabled = (forceDisable \<or> batchFailureCount s1 \<ge> BATCH_FAILURE_LIMIT);
               s2 = (if disabled then s1\<lparr>batch_enabled := False\<rparr> else s1)
           in ((disabled, batchFailureCount s2), s2))"

record EmbeddingBatchStatus =
  st_enabled :: bool
  st_failures :: nat
  st_limit :: nat
  st_wait :: bool
  st_concurrency :: nat
  st_pollIntervalMs :: nat
  st_timeoutMs :: nat
  st_lastError :: "string option"
  st_lastProvider :: "string option"

definition getBatchStatus :: "service \<Rightarrow> EmbeddingBatchStatus" where
  "getBatchStatus s =
     \<lparr>st_enabled = batch_enabled s, st_failures = batchFailureCount s, st_limit = BATCH_FAILURE_LIMIT,
      st_wait = batch_wait s, st_concurrency = batch_concurrency s,
      st_pollIntervalMs = batch_pollIntervalMs s, st_timeoutMs = batch_timeoutMs s,
      st_lastError = batchFailureLastError s, st_lastProvider = batchFailureLastProvider s\<rparr>"

definition getCacheEntryCount :: "service \<Rightarrow> nat" where
  "getCacheEntryCount s = (if \<not> cache_enabled s then 0 else length (db s))"

definition isBatchEnabled :: "service \<Rightarrow> bool" where
  "isBatchEnabled s = batch_enabled s"

definition getIndexConcurrency :: "service \<Rightarrow> nat \<Rightarrow> nat" where
  "getIndexConcurrency s defaultConcurrency =
     (if batch_enabled s then batch_concurrency s else defaultConcurrency)"

subsection \<open>The batch path\<close>

text \<open>
  \<^verbatim>\<open>runBatchWithTimeoutRetry\<close>: \<open>run\<close> is the closure \<^verbatim>\<open>params.run\<close>, a call of a batch
  runner that returns its answer and the service with the call counted.
\<close>

definition runBatchWithTimeoutRetry ::
  "string \<Rightarrow> (service \<Rightarrow> (js_error + 'a) \<times> service) \<Rightarrow> service \<Rightarrow> (js_error + 'a) \<times> service" where
  "runBatchWithTimeoutRetry provider run s =
     (case run s of
        (Inr r, s1) \<Rightarrow> (Inr r, s1)
      | (Inl err, s1) \<Rightarrow>
          if isBatchTimeoutError (message err)
          then (case run s1 of
                  (Inr r, s2) \<Rightarrow> (Inr r, s2)
                | (Inl retryErr, s2) \<Rightarrow>
                    (case setBatchAttempts retryErr 2 of
                       Inr tagged \<Rightarrow> (Inl tagged, s2)
                     | Inl typeError \<Rightarrow> (Inl typeError, s2)))
          else (Inl err, s1))"

text \<open>
  The result type \<^verbatim>\<open>T | number[][]\<close> of \<^verbatim>\<open>runBatchWithFallback\<close>: what the runner
  resolved to, or the array of the fallback (the case \<^verbatim>\<open>Array.isArray(batchResult)\<close>).
\<close>

datatype 'a batch_result = FromRun 'a | FromFallback "vector list"

text \<open>
  In the \<^verbatim>\<open>catch\<close> block the read \<^verbatim>\<open>err.batchAttempts\<close> comes before
  \<^verbatim>\<open>recordBatchFailure\<close> and the fallback: when it throws, its \<^verbatim>\<open>TypeError\<close> leaves the
  method and neither of them runs.
\<close>

definition runBatchWithFallback ::
  "string \<Rightarrow> (service \<Rightarrow> (js_error + 'a) \<times> service) \<Rightarrow>
   (service \<Rightarrow> (js_error + vector list) \<times> service) \<Rightarrow> service \<Rightarrow>
   (js_error + 'a batch_result) \<times> service" where
  "runBatchWithFallback provider run fallback s =
     (if \<not> batch_enabled s
      then (case fallback s of (r, s1) \<Rightarrow> (map_sum id FromFallback r, s1))
      else case runBatchWithTimeoutRetry provider run s of
             (Inr result, s1) \<Rightarrow> (Inr (FromRun result), resetBatchFailureCount s1)
           | (Inl err, s1) \<Rightarrow>
               let msg = message err
               in case getBatchAttempts err of
                    Inl typeError \<Rightarrow> (Inl typeError, s1)
                  | Inr batchAttempts \<Rightarrow>
                      let attempts = (case batchAttempts of None \<Rightarrow> Some 1 | Some a \<Rightarrow> Some a);
                          forceDisable = isForceDisableError msg
                      in case recordBatchFailure provider msg attempts forceDisable s1 of
                           (failure, s2) \<Rightarrow>
                             (case fallback s2 of (r, s3) \<Rightarrow> (map_sum id FromFallback r, s3)))"

definition sourceName :: "MemorySource \<Rightarrow> string" where
  "sourceName src = (case src of Memory \<Rightarrow> ''memory'' | Sessions \<Rightarrow> ''sessions'')"

text \<open>The custom ID of a missing chunk, a hash of a template string.\<close>

definition customId :: "env \<Rightarrow> MemorySource \<Rightarrow> FileEntry \<Rightarrow> nat \<times> chunk \<Rightarrow> string" where
  "customId e src entry item =
     (case item of (index, c) \<Rightarrow>
        hashText e (sourceName src @ '':'' @ path entry @ '':'' @ show_nat (startLine c) @ '':'' @
                    show_nat (endLine c) @ '':'' @ hash c @ '':'' @ show_nat index))"

text \<open>\<^verbatim>\<open>mapping.set(customId, { index, hash })\<close> for every missing chunk, in order.\<close>

definition buildMapping ::
  "env \<Rightarrow> MemorySource \<Rightarrow> FileEntry \<Rightarrow> (nat \<times> chunk) list \<Rightarrow> (string \<rightharpoonup> nat \<times> string)" where
  "buildMapping e src entry missing =
     foldl (\<lambda>m item. m(customId e src entry item \<mapsto> (fst item, hash (snd item)))) Map.empty missing"

text \<open>The loop over \<^verbatim>\<open>byCustomId.entries()\<close>.\<close>

definition reconcileStep ::
  "(string \<rightharpoonup> nat \<times> string) \<Rightarrow> vector list \<times> (string \<times> vector) list \<Rightarrow> string \<times> vector \<Rightarrow>
   vector list \<times> (string \<times> vector) list" where
  "reconcileStep mapping acc kv =
     (case acc of (embeddings, toCache) \<Rightarrow>
      case kv of (cid, embedding) \<Rightarrow>
        (case mapping cid of
           None \<Rightarrow> (embeddings, toCache)
         | Some (index, h) \<Rightarrow> (embeddings[index := embedding], toCache @ [(h, embedding)])))"

definition runOpenAi :: "env \<Rightarrow> OpenAiBatchRequest list \<Rightarrow> service \<Rightarrow>
   (js_error + (string \<times> vector) list) \<times> service" where
  "runOpenAi e requests s =
     (runOpenAiEmbeddingBatches e (openAiBatch_calls s) requests,
      s\<lparr>openAiBatch_calls := openAiBatch_calls s + 1\<rparr>)"

definition runGemini :: "env \<Rightarrow> GeminiBatchRequest list \<Rightarrow> service \<Rightarrow>
   (js_error + (string \<times> vector) list) \<times> service" where
  "runGemini e requests s =
     (runGeminiEmbeddingBatches e (geminiBatch_calls s) requests,
      s\<lparr>geminiBatch_calls := geminiBatch_calls s + 1\<rparr>)"

text \<open>What both batch methods do with the result of \<^verbatim>\<open>runBatchWithFallback\<close>.\<close>

definition finishBatch ::
  "(string \<rightharpoonup> nat \<times> string) \<Rightarrow> vector list \<Rightarrow>
   (js_error + (string \<times> vector) list batch_result) \<times> service \<Rightarrow> (js_error + vector list) \<times> service" where
  "finishBatch mapping embeddings res =
     (case res of
        (Inl err, s1) \<Rightarrow> (Inl err, s1)
      | (Inr (FromFallback vs), s1) \<Rightarrow> (Inr vs, s1)
      | (Inr (FromRun byCustomId), s1) \<Rightarrow>
          (case foldl (reconcileStep mapping) (embeddings, []) byCustomId of
             (embeddings1, toCache) \<Rightarrow> (Inr embeddings1, upsertEmbeddingCache toCache s1)))"

definition embedChunksWithOpenAiBatch ::
  "env \<Rightarrow> chunk list \<Rightarrow> FileEntry \<Rightarrow> MemorySource \<Rightarrow> service \<Rightarrow> (js_error + vector list) \<times> service" where
  "embedChunksWithOpenAiBatch e chunks entry src s =
     (case openAi s of
        None \<Rightarrow> embedChunksInBatches e chunks s
      | Some clientModel \<Rightarrow>
          if chunks = [] then (Inr [], s)
          else let cached = loadEmbeddingCache s (map hash chunks)
               in case splitCached cached chunks of (embeddings, missing) \<Rightarrow>
                    if missing = [] then (Inr embeddings, s)
                    else let mapping = buildMapping e src entry missing;
                             requests = map (\<lambda>item.
                               \<lparr>custom_id = customId e src entry item, http_method = ''POST'',
                                body_model = clientModel, body_input = text' (snd item)\<rparr>) missing
                         in finishBatch mapping embeddings
                              (runBatchWithFallback ''openai'' (runOpenAi e requests)
                                 (embedChunksInBatches e chunks) s))"

definition embedChunksWithGeminiBatch ::
  "env \<Rightarrow> chunk list \<Rightarrow> FileEntry \<Rightarrow> MemorySource \<Rightarrow> service \<Rightarrow> (js_error + vector list) \<times> service" where
  "embedChunksWithGeminiBatch e chunks entry src s =
     (case gemini s of
        None \<Rightarrow> embedChunksInBatches e chunks s
      | Some client \<Rightarrow>
          if chunks = [] then (Inr [], s)
          else let cached = loadEmbeddingCache s (map hash chunks)
               in case splitCached cached chunks of (embeddings, missing) \<Rightarrow>
                    if missing = [] then (Inr embeddings, s)
                    else let mapping = buildMapping e src entry missing;
                             requests = map (\<lambda>item.
                               \<lparr>g_custom_id = customId e src entry item,
                                content_text = text' (snd item),
                                taskType = ''RETRIEVAL_DOCUMENT''\<rparr>) missing
                         in finishBatch mapping embeddings
                              (runBatchWithFallback ''gemini'' (runGemini e requests)
                                 (embedChunksInBatches e chunks) s))"

definition embedChunksWithBatch ::
  "env \<Rightarrow> chunk list \<Rightarrow> FileEntry \<Rightarrow> MemorySource \<Rightarrow> service \<Rightarrow> (js_error + vector list) \<times> service" where
  "embedChunksWithBatch e chunks entry src s =
     (if provider_id s = ''openai'' \<and> openAi s \<noteq> None then embedChunksWithOpenAiBatch e chunks entry src s
      else if provider_id s = ''gemini'' \<and> gemini s \<noteq> None then embedChunksWithGeminiBatch e chunks entry src s
      else embedChunksInBatches e chunks s)"

definition embedChunksForFile ::
  "env \<Rightarrow> chunk list \<Rightarrow> FileEntry \<Rightarrow> MemorySource \<Rightarrow> service \<Rightarrow> (js_error + vector list) \<times> service" where
  "embedChunksForFile e chunks entry src s =
     (if batch_enabled s then embedChunksWithBatch e chunks entry src s
      else embedChunksInBatches e chunks s)"

definition embedQuery :: "env \<Rightarrow> string \<Rightarrow> service \<Rightarrow> (js_error + vector) \<times> service" where
  "embedQuery e t s =
     (let timeoutMs = resolveEmbeddingTimeout s True
      in (withTimeout (provider_embedQuery e (embedQuery_calls s) t) timeoutMs
            (''memory embeddings query timed out after '' @ show_nat (roundSeconds timeoutMs) @ ''s''),
          s\<lparr>embedQuery_calls := embedQuery_calls s + 1\<rparr>))"

subsection \<open>Pruning\<close>

text \<open>
  \<^verbatim>\<open>DELETE ... WHERE rowid IN (SELECT rowid ... ORDER BY updated_at ASC LIMIT ?)\<close>: the row
  positions are sorted by \<^verbatim>\<open>updated_at\<close> (rows of equal age in rowid order), the first
  \<open>n\<close> of them are the victims, and the rows at the other positions stay.
\<close>

definition pruneVictims :: "nat \<Rightarrow> cache_row list \<Rightarrow> nat list" where
  "pruneVictims n rows = take n (sort_key (\<lambda>i. row_updated_at (rows ! i)) [0..<length rows])"

definition deleteOldest :: "nat \<Rightarrow> cache_row list \<Rightarrow> cache_row list" where
  "deleteOldest n rows = nths rows (- set (pruneVictims n rows))"

definition pruneEmbeddingCacheIfNeeded :: "service \<Rightarrow> service" where
  "pruneEmbeddingCacheIfNeeded s =
     (if \<not> cache_enabled s then s
      else case cache_maxEntries s of
             None \<Rightarrow> s
           | Some maxEntries \<Rightarrow>
               if maxEntries = 0 \<or> maxEntries \<le> 0 then s
               else let count = int (length (db s))
                    in if count \<le> maxEntries then s
                       else let excess = nat (count - maxEntries)
                            in s\<lparr>db := deleteOldest excess (db s)\<rparr>)"

subsection \<open>Seeding\<close>

text \<open>
  The statements that \<^verbatim>\<open>seedEmbeddingCache\<close> runs, each of which the storage engine may
  fail: \<open>fault\<close> gives the error a step throws, if it throws one.
\<close>

datatype seed_step = ReadSource | PrepareInsert | Begin | Insert nat | Commit

text \<open>
  \<^verbatim>\<open>BEGIN\<close>, \<^verbatim>\<open>COMMIT\<close> and \<^verbatim>\<open>ROLLBACK\<close> on the connection of the service: a
  transaction saves the rows; \<^verbatim>\<open>ROLLBACK\<close> puts them back and fails only when no
  transaction is open.
\<close>

definition execBegin :: "service \<Rightarrow> js_error + service" where
  "execBegin s =
     (case txn s of
        Some saved \<Rightarrow> Inl (ErrorObject ''cannot start a transaction within a transaction'' None)
      | None \<Rightarrow> Inr (s\<lparr>txn := Some (db s)\<rparr>))"

definition execCommit :: "service \<Rightarrow> js_error + service" where
  "execCommit s =
     (case txn s of
        None \<Rightarrow> Inl (ErrorObject ''cannot commit - no transaction is active'' None)
      | Some saved \<Rightarrow> Inr (s\<lparr>txn := None\<rparr>))"

definition execRollback :: "service \<Rightarrow> js_error + service" where
  "execRollback s =
     (case txn s of
        None \<Rightarrow> Inl (ErrorObject ''cannot rollback - no transaction is active'' None)
      | Some saved \<Rightarrow> Inr (s\<lparr>db := saved, txn := None\<rparr>))"

text \<open>The loop \<^verbatim>\<open>for (const row of rows) insert.run(...)\<close>, from row number \<open>k\<close> on.\<close>

fun seedInserts ::
  "(seed_step \<Rightarrow> js_error option) \<Rightarrow> nat \<Rightarrow> cache_row list \<Rightarrow> service \<Rightarrow> (js_error + unit) \<times> service" where
  "seedInserts fault k [] s = (Inr (), s)"
| "seedInserts fault k (row # rows) s =
     (case fault (Insert k) of
        Some err \<Rightarrow> (Inl err, s)
      | None \<Rightarrow> seedInserts fault (k + 1) rows (s\<lparr>db := upsertRow (db s) row\<rparr>))"

text \<open>The body of the \<^verbatim>\<open>try\<close> block.\<close>

definition seedTry ::
  "(seed_step \<Rightarrow> js_error option) \<Rightarrow> cache_row list \<Rightarrow> service \<Rightarrow> (js_error + unit) \<times> service" where
  "seedTry fault rows s =
     (case fault ReadSource of
        Some err \<Rightarrow> (Inl err, s)
      | None \<Rightarrow>
          if rows = [] then (Inr (), s)
          else case fault PrepareInsert of
                 Some err \<Rightarrow> (Inl err, s)
               | None \<Rightarrow>
                   (case (case fault Begin of Some err \<Rightarrow> Inl err | None \<Rightarrow> execBegin s) of
                      Inl err \<Rightarrow> (Inl err, s)
                    | Inr s1 \<Rightarrow>
                        (case seedInserts fault 0 rows s1 of
                           (Inl err, s2) \<Rightarrow> (Inl err, s2)
                         | (Inr u, s2) \<Rightarrow>
                             (case (case fault Commit of Some err \<Rightarrow> Inl err | None \<Rightarrow> execCommit s2) of
                                Inl err \<Rightarrow> (Inl err, s2)
                              | Inr s3 \<Rightarrow> (Inr (), s3)))))"

text \<open>\<open>rows\<close> is the content of the table \<^verbatim>\<open>embedding_cache\<close> of \<^verbatim>\<open>sourceDb\<close>.\<close>

definition seedEmbeddingCache ::
  "(seed_step \<Rightarrow> js_error option) \<Rightarrow> cache_row list \<Rightarrow> service \<Rightarrow> (js_error + unit) \<times> service" where
  "seedEmbeddingCache fault rows s =
     (if \<not> cache_enabled s then (Inr (), s)
      else case seedTry fault rows s of
             (Inr u, s1) \<Rightarrow> (Inr u, s1)
           | (Inl err, s1) \<Rightarrow>
               (Inl err, (case execRollback s1 of Inr s2 \<Rightarrow> s2 | Inl rollbackErr \<Rightarrow> s1)))"

text \<open>The steps that a call with the source rows \<open>rows\<close> reaches when none before fails.\<close>

definition seedSteps :: "cache_row list \<Rightarrow> seed_step set" where
  "seedSteps rows =
     (if rows = [] then {ReadSource}
      else {ReadSource, PrepareInsert, Begin, Commit} \<union> Insert ` {..<length rows})"

subsection \<open>The public operations as one step function\<close>

datatype operation =
    OpEmbedQuery string
  | OpEmbedChunksForFile "chunk list" FileEntry MemorySource
  | OpEmbedChunksInBatches "chunk list"
  | OpPrune
  | OpSeed "seed_step \<Rightarrow> js_error option" "cache_row list"
  | OpGetBatchStatus
  | OpGetCacheEntryCount
  | OpIsBatchEnabled
  | OpGetIndexConcurrency nat

text \<open>The service after an operation; the observers leave it as it is.\<close>

fun exec :: "env \<Rightarrow> service \<Rightarrow> operation \<Rightarrow> service" where
  "exec e s (OpEmbedQuery t) = snd (embedQuery e t s)"
| "exec e s (OpEmbedChunksForFile chunks entry src) = snd (embedChunksForFile e chunks entry src s)"
| "exec e s (OpEmbedChunksInBatches chunks) = snd (embedChunksInBatches e chunks s)"
| "exec e s OpPrune = pruneEmbeddingCacheIfNeeded s"
| "exec e s (OpSeed fault rows) = snd (seedEmbeddingCache fault rows s)"
| "exec e s OpGetBatchStatus = s"
| "exec e s OpGetCacheEntryCount = s"
| "exec e s OpIsBatchEnabled = s"
| "exec e s (OpGetIndexConcurrency n) = s"

subsection \<open>Sample values\<close>

text \<open>A service with an OpenAI client, an empty cache and batch mode on.\<close>

definition sampleService :: service where
  "sampleService =
     \<lparr>provider_id = ''openai'', provider_model = ''m1'', providerKey = ''k1'',
      openAi = Some ''m1'', gemini = None, cache_enabled = True, cache_maxEntries = Some 2,
      batch_enabled = True, batch_wait = True, batch_concurrency = 2, batch_pollIntervalMs = 2000,
      batch_timeoutMs = 3600000, agentId = ''main'', batchFailureCount = 0,
      batchFailureLastError = None, batchFailureLastProvider = None, db = [], txn = None,
      clock = 1000, embedBatch_calls = 0, embedQuery_calls = 0, openAiBatch_calls = 0,
      geminiBatch_calls = 0\<rparr>"

definition err429 :: js_error where
  "err429 = ErrorObject ''openai embeddings failed: 429 Too Many Requests'' None"

text \<open>Collaborators that reject every call with a rate-limit error.\<close>

definition failingEnv :: env where
  "failingEnv =
     \<lparr>provider_embedBatch = (\<lambda>n ts. Rejected err429),
      provider_embedQuery = (\<lambda>n t. Rejected err429),
      runOpenAiEmbeddingBatches = (\<lambda>n rs. Inl err429),
      runGeminiEmbeddingBatches = (\<lambda>n rs. Inl err429),
      hashText = (\<lambda>t. t)\<rparr>"

definition smallChunk :: chunk where
  "smallChunk = \<lparr>text' = ''ab'', hash = ''h1'', startLine = 1, endLine = 2\<rparr>"

definition bigChunk :: chunk where
  "bigChunk = \<lparr>text' = replicate 8001 CHR ''x'', hash = ''h2'', startLine = 3, endLine = 4\<rparr>"

definition sampleEntry :: FileEntry where
  "sampleEntry = \<lparr>path = ''memory/notes.md'', absPath = ''/w/memory/notes.md'', mtimeMs = 0,
                  entry_size = 2, entry_hash = ''f1''\<rparr>"

definition sampleRow :: "string \<Rightarrow> vector \<Rightarrow> int \<Rightarrow> cache_row" where
  "sampleRow h v t =
     \<lparr>row_provider = ''openai'', row_model = ''m1'', row_provider_key = ''k1'', row_hash = h,
      row_embedding = v, row_dims = Some (length v), row_updated_at = t\<rparr>"

definition threeRows :: "cache_row list" where
  "threeRows = [sampleRow ''h1'' [1] 30, sampleRow ''h2'' [2] 10, sampleRow ''h3'' [3] 20]"

text \<open>The storage engine failing at the second \<^verbatim>\<open>insert.run\<close> of a seeding.\<close>

definition insertFault :: "seed_step \<Rightarrow> js_error option" where
  "insertFault st = (if st = Insert 1 then Some err429 else None)"

text \<open>Collaborators that answer every call: the vector of a text is its length.\<close>

definition sampleEmbed :: "string \<Rightarrow> vector" where
  "sampleEmbed t = [real (length t)]"

definition goodEnv :: env where
  "goodEnv =
     \<lparr>provider_embedBatch = (\<lambda>n ts. Resolved (map sampleEmbed ts)),
      provider_embedQuery = (\<lambda>n t. Resolved (sampleEmbed t)),
      runOpenAiEmbeddingBatches = (\<lambda>n rs. Inr (map (\<lambda>r. (custom_id r, sampleEmbed (body_input r))) rs)),
      runGeminiEmbeddingBatches = (\<lambda>n rs. Inr (map (\<lambda>r. (g_custom_id r, sampleEmbed (content_text r))) rs)),
      hashText = (\<lambda>t. t)\<rparr>"

definition otherChunk :: chunk where
  "otherChunk = \<lparr>text' = ''cde'', hash = ''h9'', startLine = 3, endLine = 4\<rparr>"

text \<open>The sample service with the vector of the first sample chunk in its cache.\<close>

definition warmService :: service where
  "warmService = sampleService\<lparr>db := [sampleRow ''h1'' [7] 30]\<rparr>"

text \<open>A chunk without a hash, and a provider that answers every text with the empty vector.\<close>

definition unhashedChunk :: chunk where
  "unhashedChunk = \<lparr>text' = ''ab'', hash = [], startLine = 1, endLine = 2\<rparr>"

definition emptyEnv :: env where
  "emptyEnv = goodEnv\<lparr>provider_embedBatch := (\<lambda>n ts. Resolved (map (\<lambda>t. []) ts))\<rparr>"


text \<open>The warm service with a Gemini client as well.\<close>

definition geminiService :: service where
  "geminiService = warmService\<lparr>gemini := Some ''g1''\<rparr>"

section \<open>Theorems\<close>

subsection \<open>Token-budget batching\<close>

lemma buildInv_step:
  assumes "buildInv pre st"
  shows "buildInv (pre @ [c]) (buildStep st c)"
proof -
  obtain batches current currentTokens where st: "st = (batches, current, currentTokens)"
    by (cases st) auto
  from assms st have inv:
    "concat batches @ current = pre" "currentTokens = binTokens current"
    "currentTokens \<le> EMBEDDING_BATCH_MAX_TOKENS" "\<forall>b \<in> set batches. binOk b"
    by (auto simp: buildInv_def)
  let ?e = "estimateEmbeddingTokens (text' c)"
  show ?thesis
  proof (cases "current \<noteq> [] \<and> currentTokens + ?e > EMBEDDING_BATCH_MAX_TOKENS")
    case True
    then have ok: "binOk current" using inv by (simp add: binOk_def)
    show ?thesis
      using True inv ok
      by (auto simp: buildInv_def buildStep_def st Let_def binOk_def binTokens_def)
  next
    case False
    show ?thesis
      using False inv
      by (auto simp: buildInv_def buildStep_def st Let_def binOk_def binTokens_def)
  qed
qed

lemma buildInv_foldl:
  "buildInv pre st \<Longrightarrow> buildInv (pre @ cs) (foldl buildStep st cs)"
proof (induction cs arbitrary: pre st)
  case Nil
  then show ?case by simp
next
  case (Cons c cs)
  from buildInv_step [OF Cons.prems] have "buildInv (pre @ [c]) (buildStep st c)" .
  from Cons.IH [OF this] show ?case by simp
qed

lemma buildInv_init: "buildInv [] ([], [], 0)"
  by (simp add: buildInv_def binTokens_def)

lemma buildEmbeddingBatches_bins:
  "concat (buildEmbeddingBatches chunks) = chunks \<and>
   (\<forall>b \<in> set (buildEmbeddingBatches chunks). binOk b)"
proof -
  obtain batches current currentTokens
    where f: "foldl buildStep ([], [], 0) chunks = (batches, current, currentTokens)"
    by (cases "foldl buildStep ([], [], 0) chunks") auto
  from buildInv_foldl [OF buildInv_init, of chunks] f
  have inv: "concat batches @ current = chunks" "currentTokens = binTokens current"
    "currentTokens \<le> EMBEDDING_BATCH_MAX_TOKENS" "\<forall>b \<in> set batches. binOk b"
    by (auto simp: buildInv_def)
  have res: "buildEmbeddingBatches chunks = (if current \<noteq> [] then batches @ [current] else batches)"
    by (simp add: buildEmbeddingBatches_def f)
  have c: "concat (buildEmbeddingBatches chunks) = chunks"
    using inv(1) by (cases "current = []") (auto simp: res)
  have "\<forall>b \<in> set (buildEmbeddingBatches chunks). binOk b"
    using inv by (auto simp: res binOk_def)
  with c show ?thesis by blast
qed

text \<open>
  C4. For every chunk sequence, the bins of \<^verbatim>\<open>buildEmbeddingBatches\<close> concatenate to
  the input (order kept across and within bins), and every bin either has a summed token
  estimate of at most 8000 or is a singleton whose one chunk alone exceeds 8000.
\<close>

theorem buildEmbeddingBatches_partition:
  "concat (buildEmbeddingBatches chunks) = chunks \<and>
   (\<forall>b \<in> set (buildEmbeddingBatches chunks).
      binTokens b \<le> 8000 \<or>
      (\<exists>c. b = [c] \<and> estimateEmbeddingTokens (text' c) > 8000))"
proof -
  have "binOk b \<Longrightarrow> binTokens b \<le> 8000 \<or>
      (\<exists>c. b = [c] \<and> estimateEmbeddingTokens (text' c) > 8000)" for b
    by (cases b) (auto simp: binOk_def EMBEDDING_BATCH_MAX_TOKENS_def)
  with buildEmbeddingBatches_bins [of chunks] show ?thesis by blast
qed

lemma buildEmbeddingBatches_sample:
  "buildEmbeddingBatches [smallChunk, bigChunk, smallChunk] = [[smallChunk], [bigChunk], [smallChunk]]"
  by (simp add: buildEmbeddingBatches_def buildStep_def estimateEmbeddingTokens_def smallChunk_def
      bigChunk_def EMBEDDING_BATCH_MAX_TOKENS_def EMBEDDING_APPROX_CHARS_PER_TOKEN_def Let_def)

theorem buildEmbeddingBatches_partition_witness:
  "concat (buildEmbeddingBatches [smallChunk, bigChunk, smallChunk]) = [smallChunk, bigChunk, smallChunk] \<and>
   [bigChunk] \<in> set (buildEmbeddingBatches [smallChunk, bigChunk, smallChunk]) \<and>
   (binTokens [bigChunk] \<le> 8000 \<or>
    (\<exists>c. [bigChunk] = [c] \<and> estimateEmbeddingTokens (text' c) > 8000))"
  using buildEmbeddingBatches_partition [of "[smallChunk, bigChunk, smallChunk]"]
    buildEmbeddingBatches_sample
  by simp


subsection \<open>What an operation leaves alone\<close>


lemma resolveEmbeddingTimeout_pos: "0 < resolveEmbeddingTimeout s k"
  by (simp add: resolveEmbeddingTimeout_def Let_def EMBEDDING_QUERY_TIMEOUT_LOCAL_MS_def
      EMBEDDING_QUERY_TIMEOUT_REMOTE_MS_def EMBEDDING_BATCH_TIMEOUT_LOCAL_MS_def
      EMBEDDING_BATCH_TIMEOUT_REMOTE_MS_def)

lemma retryLoop_frame:
  "\<exists>n. snd (retryLoop e texts attempt s) = s\<lparr>embedBatch_calls := n\<rparr> \<and> embedBatch_calls s < n"
proof (induction e texts attempt s rule: retryLoop.induct)
  case (1 e texts attempt s)
  let ?s1 = "s\<lparr>embedBatch_calls := embedBatch_calls s + 1\<rparr>"
  let ?r = "withTimeout (provider_embedBatch e (embedBatch_calls s) texts) (resolveEmbeddingTimeout s False)
       (''memory embeddings batch timed out after '' @ show_nat (roundSeconds (resolveEmbeddingTimeout s False)) @ ''s'')"
  show ?case
  proof (cases ?r)
    case (Inr vs)
    then have "snd (retryLoop e texts attempt s) = ?s1"
      by (subst retryLoop.simps) (simp add: Let_def)
    then show ?thesis by (intro exI [of _ "embedBatch_calls s + 1"]) simp
  next
    case (Inl err)
    show ?thesis
    proof (cases "\<not> isRetryableEmbeddingError (message err) \<or> attempt \<ge> EMBEDDING_RETRY_MAX_ATTEMPTS")
      case True
      with Inl have "snd (retryLoop e texts attempt s) = ?s1"
        by (subst retryLoop.simps) (simp add: Let_def)
      then show ?thesis by (intro exI [of _ "embedBatch_calls s + 1"]) simp
    next
      case False
      with Inl have eq: "retryLoop e texts attempt s = retryLoop e texts (attempt + 1) ?s1"
        by (subst retryLoop.simps) (simp add: Let_def)
      from "1.IH" [OF refl refl Inl False]
      obtain n where "snd (retryLoop e texts (attempt + 1) ?s1) = ?s1\<lparr>embedBatch_calls := n\<rparr>"
        "embedBatch_calls ?s1 < n" by blast
      then show ?thesis unfolding eq by (intro exI [of _ n]) simp
    qed
  qed
qed

lemma embedBatchWithRetry_frame:
  "\<exists>n. snd (embedBatchWithRetry e texts s) = s\<lparr>embedBatch_calls := n\<rparr> \<and> embedBatch_calls s \<le> n"
proof (cases "texts = []")
  case True
  then show ?thesis by (intro exI [of _ "embedBatch_calls s"]) (simp add: embedBatchWithRetry_def)
next
  case False
  with retryLoop_frame [of e texts 0 s] show ?thesis
    by (auto simp: embedBatchWithRetry_def intro: less_imp_le)
qed

lemma embedBins_frame:
  "\<exists>n. snd (embedBins e missing batches cursor embeddings toCache s) = s\<lparr>embedBatch_calls := n\<rparr>
       \<and> embedBatch_calls s \<le> n"
proof (induction batches arbitrary: cursor embeddings toCache s)
  case Nil
  then show ?case by (intro exI [of _ "embedBatch_calls s"]) simp
next
  case (Cons batch batches)
  obtain r s1 where r: "embedBatchWithRetry e (map text' batch) s = (r, s1)"
    by (cases "embedBatchWithRetry e (map text' batch) s") auto
  from embedBatchWithRetry_frame [of e "map text' batch" s] r
  obtain n where n: "s1 = s\<lparr>embedBatch_calls := n\<rparr>" "embedBatch_calls s \<le> n" by auto
  show ?case
  proof (cases r)
    case (Inl err)
    with r n show ?thesis by (intro exI [of _ n]) simp
  next
    case (Inr vs)
    obtain em tc where f: "foldl (assignStep missing cursor vs) (embeddings, toCache) [0..<length batch] = (em, tc)"
      by (cases "foldl (assignStep missing cursor vs) (embeddings, toCache) [0..<length batch]") auto
    from Cons.IH [of "cursor + length batch" em tc s1]
    obtain m where m: "snd (embedBins e missing batches (cursor + length batch) em tc s1) = s1\<lparr>embedBatch_calls := m\<rparr>"
      "embedBatch_calls s1 \<le> m" by blast
    with r Inr f n show ?thesis by (intro exI [of _ m]) simp
  qed
qed

lemma upsertEmbeddingCache_frame: "\<exists>rows. upsertEmbeddingCache entries s = s\<lparr>db := rows\<rparr>"
proof (cases "\<not> cache_enabled s \<or> entries = []")
  case True
  then show ?thesis by (intro exI [of _ "db s"]) (auto simp: upsertEmbeddingCache_def)
next
  case False
  then show ?thesis by (auto simp: upsertEmbeddingCache_def Let_def)
qed

lemma embedChunksInBatches_frame:
  "\<exists>n rows. snd (embedChunksInBatches e chunks s) = s\<lparr>embedBatch_calls := n, db := rows\<rparr>
       \<and> embedBatch_calls s \<le> n"
proof -
  have triv: "\<exists>n rows. s = s\<lparr>embedBatch_calls := n, db := rows\<rparr> \<and> embedBatch_calls s \<le> n"
    by (intro exI [of _ "embedBatch_calls s"] exI [of _ "db s"]) simp
  obtain em missing where sp: "splitCached (loadEmbeddingCache s (map hash chunks)) chunks = (em, missing)"
    by (cases "splitCached (loadEmbeddingCache s (map hash chunks)) chunks") auto
  let ?bins = "embedBins e missing (buildEmbeddingBatches (map snd missing)) 0 em [] s"
  obtain r s1 where b: "?bins = (r, s1)" by (cases ?bins) auto
  from embedBins_frame [of e missing "buildEmbeddingBatches (map snd missing)" 0 em "[]" s] b
  obtain n where n: "s1 = s\<lparr>embedBatch_calls := n\<rparr>" "embedBatch_calls s \<le> n" by auto
  show ?thesis
  proof (cases "chunks = [] \<or> missing = []")
    case True
    with sp triv show ?thesis by (auto simp: embedChunksInBatches_def Let_def)
  next
    case False
    show ?thesis
    proof (cases r)
      case (Inl err)
      with False sp b n have "snd (embedChunksInBatches e chunks s) = s\<lparr>embedBatch_calls := n, db := db s\<rparr>"
        by (simp add: embedChunksInBatches_def Let_def)
      with n show ?thesis by blast
    next
      case (Inr p)
      obtain em1 tc where p: "p = (em1, tc)" by (cases p) auto
      from upsertEmbeddingCache_frame [of tc s1] obtain rows where
        "upsertEmbeddingCache tc s1 = s1\<lparr>db := rows\<rparr>" by blast
      with False sp b n Inr p
      have "snd (embedChunksInBatches e chunks s) = s\<lparr>embedBatch_calls := n, db := rows\<rparr>"
        by (simp add: embedChunksInBatches_def Let_def)
      with n show ?thesis by blast
    qed
  qed
qed

lemma embedQuery_frame: "\<exists>n. snd (embedQuery e t s) = s\<lparr>embedQuery_calls := n\<rparr>"
  by (intro exI [of _ "embedQuery_calls s + 1"]) (simp add: embedQuery_def Let_def)

lemma prune_frame: "\<exists>rows. pruneEmbeddingCacheIfNeeded s = s\<lparr>db := rows\<rparr>"
proof -
  have "pruneEmbeddingCacheIfNeeded s = s \<or>
        (\<exists>n. pruneEmbeddingCacheIfNeeded s = s\<lparr>db := deleteOldest n (db s)\<rparr>)"
    by (auto simp: pruneEmbeddingCacheIfNeeded_def Let_def split: option.splits)
  then show ?thesis
  proof
    assume "pruneEmbeddingCacheIfNeeded s = s"
    then show ?thesis by (intro exI [of _ "db s"]) simp
  qed blast
qed

lemma seedInserts_frame: "\<exists>rows'. snd (seedInserts fault k rows s) = s\<lparr>db := rows'\<rparr>"
proof (induction rows arbitrary: k s)
  case Nil
  then show ?case by (intro exI [of _ "db s"]) simp
next
  case (Cons row rows)
  show ?case
  proof (cases "fault (Insert k)")
    case None
    from Cons.IH [of "k + 1" "s\<lparr>db := upsertRow (db s) row\<rparr>"] None
    show ?thesis by auto
  next
    case (Some err)
    then show ?thesis by (intro exI [of _ "db s"]) simp
  qed
qed

lemma seedTry_frame: "\<exists>rows' t. snd (seedTry fault rows s) = s\<lparr>db := rows', txn := t\<rparr>"
proof -
  have triv: "\<exists>rows' t. s = s\<lparr>db := rows', txn := t\<rparr>"
    by (intro exI [of _ "db s"] exI [of _ "txn s"]) simp
  have ins: "\<exists>rows' t. snd (seedInserts fault 0 rows (s\<lparr>txn := Some (db s)\<rparr>)) = s\<lparr>db := rows', txn := t\<rparr>"
  proof -
    from seedInserts_frame [of fault 0 rows "s\<lparr>txn := Some (db s)\<rparr>"]
    obtain rows' where "snd (seedInserts fault 0 rows (s\<lparr>txn := Some (db s)\<rparr>)) = s\<lparr>txn := Some (db s), db := rows'\<rparr>"
      by blast
    then show ?thesis by (intro exI [of _ rows'] exI [of _ "Some (db s)"]) simp
  qed
  obtain r s2 where i: "seedInserts fault 0 rows (s\<lparr>txn := Some (db s)\<rparr>) = (r, s2)"
    by (cases "seedInserts fault 0 rows (s\<lparr>txn := Some (db s)\<rparr>)") auto
  with ins obtain rows' t where s2: "s2 = s\<lparr>db := rows', txn := t\<rparr>" by auto
  have c: "\<exists>rows' t. (case execCommit s2 of Inl e \<Rightarrow> s2 | Inr s3 \<Rightarrow> s3) = s\<lparr>db := rows', txn := t\<rparr>"
    using s2 by (auto simp: execCommit_def split: option.splits)
  show ?thesis
    using triv i s2
    by (auto simp: seedTry_def execBegin_def execCommit_def split: option.splits sum.splits)
qed

lemma seedEmbeddingCache_frame:
  "\<exists>rows' t. snd (seedEmbeddingCache fault rows s) = s\<lparr>db := rows', txn := t\<rparr>"
proof -
  have triv: "\<exists>rows' t. s = s\<lparr>db := rows', txn := t\<rparr>"
    by (intro exI [of _ "db s"] exI [of _ "txn s"]) simp
  obtain r s1 where t: "seedTry fault rows s = (r, s1)" by (cases "seedTry fault rows s") auto
  with seedTry_frame [of fault rows s] obtain rows' t' where s1: "s1 = s\<lparr>db := rows', txn := t'\<rparr>"
    by auto
  show ?thesis
    using triv t s1
    by (auto simp: seedEmbeddingCache_def execRollback_def split: option.splits sum.splits)
qed

lemma embedChunksForFile_disabled:
  "\<not> batch_enabled s \<Longrightarrow> embedChunksForFile e chunks entry src s = embedChunksInBatches e chunks s"
  by (simp add: embedChunksForFile_def)

lemma exec_keeps_disabled: "\<not> batch_enabled s \<Longrightarrow> \<not> batch_enabled (exec e s op)"
proof (cases op)
  case (OpEmbedQuery t)
  assume "\<not> batch_enabled s"
  with embedQuery_frame [of e t s] OpEmbedQuery show ?thesis by auto
next
  case (OpEmbedChunksForFile chunks entry src)
  assume d: "\<not> batch_enabled s"
  with embedChunksInBatches_frame [of e chunks s] OpEmbedChunksForFile show ?thesis
    by (auto simp: embedChunksForFile_disabled)
next
  case (OpEmbedChunksInBatches chunks)
  assume "\<not> batch_enabled s"
  with embedChunksInBatches_frame [of e chunks s] OpEmbedChunksInBatches show ?thesis by auto
next
  case OpPrune
  assume "\<not> batch_enabled s"
  with prune_frame [of s] OpPrune show ?thesis by auto
next
  case (OpSeed fault rows)
  assume "\<not> batch_enabled s"
  with seedEmbeddingCache_frame [of fault rows s] OpSeed show ?thesis by auto
qed simp_all

lemma execs_keep_disabled: "\<not> batch_enabled s \<Longrightarrow> \<not> batch_enabled (foldl (exec e) s ops)"
  by (induction ops arbitrary: s) (simp_all add: exec_keeps_disabled)

lemma recordBatchFailure_disables:
  "forceDisable \<or> BATCH_FAILURE_LIMIT \<le> batchFailureCount (snd (recordBatchFailure p m a forceDisable s))
   \<Longrightarrow> \<not> batch_enabled (snd (recordBatchFailure p m a forceDisable s))"
  by (auto simp: recordBatchFailure_def Let_def)

subsection \<open>The circuit breaker\<close>

text \<open>
  C5. The batch-enabled flag only ever goes from true to false. A recorded failure that
  brings the counter to the limit, or a forced disable, leaves the flag false; from a
  service whose flag is false, no sequence of operations makes it true again, and every
  later \<^verbatim>\<open>embedChunksForFile\<close> is the inline path, with no call of a batch runner.
\<close>

theorem batch_disable_is_permanent:
  "(forceDisable \<or> BATCH_FAILURE_LIMIT \<le> batchFailureCount (snd (recordBatchFailure p m a forceDisable s0))
      \<longrightarrow> \<not> batch_enabled (snd (recordBatchFailure p m a forceDisable s0))) \<and>
   (\<not> batch_enabled s \<longrightarrow>
      (let s' = foldl (exec e) s ops in
         \<not> batch_enabled s' \<and>
         embedChunksForFile e chunks entry src s' = embedChunksInBatches e chunks s' \<and>
         \<not> batch_enabled (snd (embedChunksForFile e chunks entry src s')) \<and>
         openAiBatch_calls (snd (embedChunksForFile e chunks entry src s')) = openAiBatch_calls s' \<and>
         geminiBatch_calls (snd (embedChunksForFile e chunks entry src s')) = geminiBatch_calls s'))"
proof (intro conjI impI)
  assume "forceDisable \<or> BATCH_FAILURE_LIMIT \<le> batchFailureCount (snd (recordBatchFailure p m a forceDisable s0))"
  then show "\<not> batch_enabled (snd (recordBatchFailure p m a forceDisable s0))"
    by (rule recordBatchFailure_disables)
next
  assume d: "\<not> batch_enabled s"
  let ?s = "foldl (exec e) s ops"
  have d': "\<not> batch_enabled ?s" using d by (rule execs_keep_disabled)
  have eq: "embedChunksForFile e chunks entry src ?s = embedChunksInBatches e chunks ?s"
    using d' by (rule embedChunksForFile_disabled)
  from embedChunksInBatches_frame [of e chunks ?s]
  obtain n rows where fr: "snd (embedChunksInBatches e chunks ?s) = ?s\<lparr>embedBatch_calls := n, db := rows\<rparr>"
    by blast
  show "let s' = ?s in
         \<not> batch_enabled s' \<and>
         embedChunksForFile e chunks entry src s' = embedChunksInBatches e chunks s' \<and>
         \<not> batch_enabled (snd (embedChunksForFile e chunks entry src s')) \<and>
         openAiBatch_calls (snd (embedChunksForFile e chunks entry src s')) = openAiBatch_calls s' \<and>
         geminiBatch_calls (snd (embedChunksForFile e chunks entry src s')) = geminiBatch_calls s'"
    using d' eq fr by (simp add: Let_def)
qed

theorem batch_disable_is_permanent_witness:
  "\<not> batch_enabled (snd (recordBatchFailure ''gemini'' ''asyncBatchEmbedContent not available''
        (Some 1) True sampleService)) \<and>
   \<not> batch_enabled (sampleService\<lparr>batch_enabled := False\<rparr>) \<and>
   \<not> batch_enabled (foldl (exec failingEnv) (sampleService\<lparr>batch_enabled := False\<rparr>)
        [OpEmbedChunksForFile [smallChunk] sampleEntry Memory, OpPrune]) \<and>
   embedChunksForFile failingEnv [smallChunk] sampleEntry Memory
      (foldl (exec failingEnv) (sampleService\<lparr>batch_enabled := False\<rparr>)
        [OpEmbedChunksForFile [smallChunk] sampleEntry Memory, OpPrune]) =
   embedChunksInBatches failingEnv [smallChunk]
      (foldl (exec failingEnv) (sampleService\<lparr>batch_enabled := False\<rparr>)
        [OpEmbedChunksForFile [smallChunk] sampleEntry Memory, OpPrune])"
  using batch_disable_is_permanent [where forceDisable = True and p = "''gemini''"
      and m = "''asyncBatchEmbedContent not available''" and a = "Some 1" and ?s0.0 = sampleService
      and s = "sampleService\<lparr>batch_enabled := False\<rparr>" and e = failingEnv
      and ops = "[OpEmbedChunksForFile [smallChunk] sampleEntry Memory, OpPrune]"
      and chunks = "[smallChunk]" and entry = sampleEntry and src = Memory]
  by (simp add: Let_def)

text \<open>
  C2, as the code has it. With batch mode on, \<^verbatim>\<open>recordBatchFailure\<close> with
  \<^verbatim>\<open>forceDisable\<close> adds the limit to the failure counter, whatever the counter was, and
  turns the flag off; \<^verbatim>\<open>getBatchStatus\<close> then reports \<^verbatim>\<open>enabled === false\<close> and a
  count of at least the limit. With batch mode already off, the call changes nothing.
\<close>

theorem recordBatchFailure_forceDisable:
  "(batch_enabled s \<longrightarrow>
      (let r = recordBatchFailure provider msg attempts True s; s' = snd r in
         batchFailureCount s' = batchFailureCount s + BATCH_FAILURE_LIMIT \<and>
         \<not> batch_enabled s' \<and>
         fst r = (True, batchFailureCount s') \<and>
         st_enabled (getBatchStatus s') = False \<and>
         st_limit (getBatchStatus s') \<le> st_failures (getBatchStatus s'))) \<and>
   (\<not> batch_enabled s \<longrightarrow>
      recordBatchFailure provider msg attempts True s = ((True, batchFailureCount s), s))"
  by (simp add: recordBatchFailure_def Let_def getBatchStatus_def)

theorem recordBatchFailure_forceDisable_witness:
  "batch_enabled (sampleService\<lparr>batchFailureCount := 1\<rparr>) \<and>
   batchFailureCount (snd (recordBatchFailure ''gemini'' ''asyncBatchEmbedContent not available''
      (Some 1) True (sampleService\<lparr>batchFailureCount := 1\<rparr>))) = 1 + BATCH_FAILURE_LIMIT \<and>
   \<not> batch_enabled (snd (recordBatchFailure ''gemini'' ''asyncBatchEmbedContent not available''
      (Some 1) True (sampleService\<lparr>batchFailureCount := 1\<rparr>))) \<and>
   \<not> batch_enabled (sampleService\<lparr>batch_enabled := False\<rparr>) \<and>
   recordBatchFailure ''gemini'' ''asyncBatchEmbedContent not available'' (Some 1) True
      (sampleService\<lparr>batch_enabled := False\<rparr>) =
     ((True, batchFailureCount (sampleService\<lparr>batch_enabled := False\<rparr>)),
      sampleService\<lparr>batch_enabled := False\<rparr>)"
  using recordBatchFailure_forceDisable [of "sampleService\<lparr>batchFailureCount := 1\<rparr>"
      "''gemini''" "''asyncBatchEmbedContent not available''" "Some 1"]
    recordBatchFailure_forceDisable [of "sampleService\<lparr>batch_enabled := False\<rparr>"
      "''gemini''" "''asyncBatchEmbedContent not available''" "Some 1"]
  by (simp add: Let_def sampleService_def)

text \<open>
  C2, as the specification has it, fails: from a counter of 1 (one earlier failure, batch
  mode still on) a forced disable leaves the counter at 3, not at the limit 2.
\<close>

theorem recordBatchFailure_forceDisable_counterexample:
  "batchFailureCount (snd (recordBatchFailure ''gemini'' ''asyncBatchEmbedContent not available''
      (Some 1) True (sampleService\<lparr>batchFailureCount := 1\<rparr>))) \<noteq> BATCH_FAILURE_LIMIT"
  by (simp add: recordBatchFailure_def sampleService_def BATCH_FAILURE_LIMIT_def Let_def)

subsection \<open>The retry loop\<close>

lemma err429_retryable: "isRetryableEmbeddingError (message err429)"
  by (simp add: err429_def isRetryableEmbeddingError_def lower_def lower_char_def)

text \<open>
  C3 at a provider that rejects every call with a retryable error: the loop gives up
  only at the fourth call of the provider, one more than the three attempts of
  \<^verbatim>\<open>EMBEDDING_RETRY_MAX_ATTEMPTS\<close>.
\<close>

theorem embedBatchWithRetry_always_failing:
  "embedBatchWithRetry failingEnv [''a''] sampleService =
     (Inl err429, sampleService\<lparr>embedBatch_calls := 4\<rparr>)"
  by (simp add: embedBatchWithRetry_def retryLoop.simps err429_retryable failingEnv_def
      withTimeout_def EMBEDDING_RETRY_MAX_ATTEMPTS_def sampleService_def)


subsection \<open>Pruning\<close>


lemma pruneVictims_props:
  assumes "n \<le> length rows"
  shows "distinct (pruneVictims n rows)"
    and "set (pruneVictims n rows) \<subseteq> {..<length rows}"
    and "length (pruneVictims n rows) = n"
    and "\<forall>i \<in> set (pruneVictims n rows). \<forall>j < length rows. j \<notin> set (pruneVictims n rows) \<longrightarrow>
           row_updated_at (rows ! i) \<le> row_updated_at (rows ! j)"
proof -
  let ?f = "\<lambda>i. row_updated_at (rows ! i)"
  let ?idx = "sort_key ?f [0..<length rows]"
  have d: "distinct ?idx" by simp
  have st: "set ?idx = {..<length rows}" by auto
  have len: "length ?idx = length rows" by simp
  have so: "sorted (map ?f ?idx)" by (rule sorted_sort_key)
  show "distinct (pruneVictims n rows)" using d by (simp add: pruneVictims_def)
  show "set (pruneVictims n rows) \<subseteq> {..<length rows}"
    using set_take_subset [of n ?idx] st by (simp add: pruneVictims_def)
  show "length (pruneVictims n rows) = n" using assms len by (simp add: pruneVictims_def)
  show "\<forall>i \<in> set (pruneVictims n rows). \<forall>j < length rows. j \<notin> set (pruneVictims n rows) \<longrightarrow>
           ?f i \<le> ?f j"
  proof (intro ballI allI impI)
    fix i j assume i: "i \<in> set (pruneVictims n rows)" and j: "j < length rows"
      and nj: "j \<notin> set (pruneVictims n rows)"
    from j st have "j \<in> set ?idx" by simp
    then have "j \<in> set (take n ?idx) \<union> set (drop n ?idx)"
      by (metis append_take_drop_id set_append)
    with nj have jd: "j \<in> set (drop n ?idx)" by (simp add: pruneVictims_def)
    from so have "sorted (map ?f (take n ?idx) @ map ?f (drop n ?idx))"
      by (metis append_take_drop_id map_append)
    then have "\<forall>x \<in> set (map ?f (take n ?idx)). \<forall>y \<in> set (map ?f (drop n ?idx)). x \<le> y"
      by (simp add: sorted_append)
    with i jd show "?f i \<le> ?f j" by (auto simp: pruneVictims_def)
  qed
qed

lemma length_deleteOldest:
  assumes "n \<le> length rows"
  shows "length (deleteOldest n rows) = length rows - n"
proof -
  let ?V = "set (pruneVictims n rows)"
  have "{i. i < length rows \<and> i \<in> - ?V} = {..<length rows} - ?V" by auto
  moreover have "card ({..<length rows} - ?V) = length rows - n"
    using pruneVictims_props(1-3) [OF assms]
    by (simp add: card_Diff_subset distinct_card)
  ultimately show ?thesis by (simp add: deleteOldest_def length_nths)
qed

text \<open>
  C6. \<^verbatim>\<open>pruneEmbeddingCacheIfNeeded\<close> changes nothing when caching is off, when
  \<^verbatim>\<open>maxEntries\<close> is unset or not positive, or when the table has at most
  \<^verbatim>\<open>maxEntries\<close> rows. Otherwise it removes the rows at \<open>count - maxEntries\<close> distinct
  positions, none of them younger (by \<^verbatim>\<open>updated_at\<close>) than a row that stays, and
  exactly \<^verbatim>\<open>maxEntries\<close> rows are left.
\<close>

theorem prune_exact:
  "((\<not> cache_enabled s \<or> cache_maxEntries s = None \<or>
     (\<exists>m. cache_maxEntries s = Some m \<and> (m \<le> 0 \<or> int (length (db s)) \<le> m)))
      \<longrightarrow> pruneEmbeddingCacheIfNeeded s = s) \<and>
   (cache_enabled s \<and> cache_maxEntries s = Some m \<and> 0 < m \<and> m < int (length (db s)) \<longrightarrow>
      (\<exists>victims.
         pruneEmbeddingCacheIfNeeded s = s\<lparr>db := nths (db s) (- set victims)\<rparr> \<and>
         distinct victims \<and> set victims \<subseteq> {..<length (db s)} \<and>
         int (length victims) = int (length (db s)) - m \<and>
         (\<forall>i \<in> set victims. \<forall>j < length (db s). j \<notin> set victims \<longrightarrow>
            row_updated_at (db s ! i) \<le> row_updated_at (db s ! j)) \<and>
         int (length (db (pruneEmbeddingCacheIfNeeded s))) = m))"
proof (intro conjI impI)
  assume "\<not> cache_enabled s \<or> cache_maxEntries s = None \<or>
     (\<exists>m. cache_maxEntries s = Some m \<and> (m \<le> 0 \<or> int (length (db s)) \<le> m))"
  then show "pruneEmbeddingCacheIfNeeded s = s"
    by (auto simp: pruneEmbeddingCacheIfNeeded_def Let_def)
next
  assume a: "cache_enabled s \<and> cache_maxEntries s = Some m \<and> 0 < m \<and> m < int (length (db s))"
  let ?n = "nat (int (length (db s)) - m)"
  have n: "?n \<le> length (db s)" using a by linarith
  have p: "pruneEmbeddingCacheIfNeeded s = s\<lparr>db := deleteOldest ?n (db s)\<rparr>"
    using a by (simp add: pruneEmbeddingCacheIfNeeded_def Let_def)
  have "int (length (db s) - ?n) = m" using a by linarith
  then have l: "int (length (db (pruneEmbeddingCacheIfNeeded s))) = m"
    by (simp add: p length_deleteOldest [OF n])
  have v: "int (length (pruneVictims ?n (db s))) = int (length (db s)) - m"
    using a by (simp add: pruneVictims_props(3) [OF n])
  show "\<exists>victims.
         pruneEmbeddingCacheIfNeeded s = s\<lparr>db := nths (db s) (- set victims)\<rparr> \<and>
         distinct victims \<and> set victims \<subseteq> {..<length (db s)} \<and>
         int (length victims) = int (length (db s)) - m \<and>
         (\<forall>i \<in> set victims. \<forall>j < length (db s). j \<notin> set victims \<longrightarrow>
            row_updated_at (db s ! i) \<le> row_updated_at (db s ! j)) \<and>
         int (length (db (pruneEmbeddingCacheIfNeeded s))) = m"
    using p l v pruneVictims_props(1,2,4) [OF n]
    by (intro exI [of _ "pruneVictims ?n (db s)"]) (simp add: deleteOldest_def)
qed

lemma prune_sample:
  "db (pruneEmbeddingCacheIfNeeded (sampleService\<lparr>db := threeRows\<rparr>)) =
     [sampleRow ''h1'' [1] 30, sampleRow ''h3'' [3] 20]"
  by (simp add: pruneEmbeddingCacheIfNeeded_def sampleService_def threeRows_def Let_def
      deleteOldest_def pruneVictims_def sampleRow_def nths_Cons upt_rec)

theorem prune_exact_witness:
  "cache_enabled (sampleService\<lparr>db := threeRows\<rparr>) \<and>
   cache_maxEntries (sampleService\<lparr>db := threeRows\<rparr>) = Some 2 \<and>
   2 < int (length (db (sampleService\<lparr>db := threeRows\<rparr>))) \<and>
   int (length (db (pruneEmbeddingCacheIfNeeded (sampleService\<lparr>db := threeRows\<rparr>)))) = 2 \<and>
   \<not> cache_enabled (sampleService\<lparr>db := threeRows, cache_enabled := False\<rparr>) \<and>
   pruneEmbeddingCacheIfNeeded (sampleService\<lparr>db := threeRows, cache_enabled := False\<rparr>) =
     sampleService\<lparr>db := threeRows, cache_enabled := False\<rparr>"
proof -
  let ?s = "sampleService\<lparr>db := threeRows\<rparr>"
  let ?d = "sampleService\<lparr>db := threeRows, cache_enabled := False\<rparr>"
  have h: "cache_enabled ?s \<and> cache_maxEntries ?s = Some 2 \<and> 0 < (2::int) \<and> 2 < int (length (db ?s))"
    by (simp add: sampleService_def threeRows_def)
  have d: "\<not> cache_enabled ?d" by simp
  from prune_exact [of ?s 2] h
  have l: "int (length (db (pruneEmbeddingCacheIfNeeded ?s))) = 2" by blast
  from prune_exact [of ?d 2] d
  have n: "pruneEmbeddingCacheIfNeeded ?d = ?d" by blast
  from h d l n show ?thesis by blast
qed


subsection \<open>Seeding\<close>


lemma sameKey_rowKey: "sameKey a b \<longleftrightarrow> rowKey a = rowKey b"
  by (auto simp: sameKey_def rowKey_def)


lemma rowKey_upsertRow:
  "rowKey ` set (upsertRow d new) = insert (rowKey new) (rowKey ` set d)"
proof (cases "\<exists>r \<in> set d. sameKey r new")
  case True
  let ?h = "\<lambda>r. if sameKey r new
                then r\<lparr>row_embedding := row_embedding new, row_dims := row_dims new,
                       row_updated_at := row_updated_at new\<rparr>
                else r"
  have k: "rowKey (?h r) = rowKey r" for r by (simp add: rowKey_def)
  have u: "upsertRow d new = map ?h d" using True by (simp add: upsertRow_def)
  have "rowKey ` set (map ?h d) = (\<lambda>r. rowKey (?h r)) ` set d"
    by (simp only: set_map image_image)
  also have "\<dots> = rowKey ` set d" by (simp only: k)
  finally have a: "rowKey ` set (upsertRow d new) = rowKey ` set d" by (simp only: u)
  from True obtain r where "r \<in> set d" "rowKey r = rowKey new" by (auto simp: sameKey_rowKey)
  then have "rowKey new \<in> rowKey ` set d" by (metis imageI)
  with a show ?thesis by blast
next
  case False
  then have "upsertRow d new = d @ [new]" by (simp add: upsertRow_def)
  then show ?thesis by simp
qed

lemma rowKey_foldl_upsertRow:
  "rowKey ` set (foldl upsertRow d rows) = rowKey ` set d \<union> rowKey ` set rows"
proof (induction rows arbitrary: d)
  case Nil
  then show ?case by simp
next
  case (Cons row rows)
  have "rowKey ` set (foldl upsertRow d (row # rows)) =
        rowKey ` set (upsertRow d row) \<union> rowKey ` set rows"
    by (simp add: Cons.IH)
  also have "\<dots> = insert (rowKey row) (rowKey ` set d) \<union> rowKey ` set rows"
    by (simp only: rowKey_upsertRow)
  finally show ?case by auto
qed

lemma seedInserts_ok:
  "\<forall>i < length rows. fault (Insert (k + i)) = None \<Longrightarrow>
   seedInserts fault k rows s = (Inr (), s\<lparr>db := foldl upsertRow (db s) rows\<rparr>)"
proof (induction rows arbitrary: k s)
  case Nil
  then show ?case by simp
next
  case (Cons row rows)
  from Cons.prems have h: "fault (Insert k) = None" by force
  from Cons.prems have "\<forall>i < length rows. fault (Insert (k + 1 + i)) = None" by force
  from Cons.IH [OF this] h show ?case by simp
qed

lemma seedInserts_err:
  "\<exists>i < length rows. fault (Insert (k + i)) \<noteq> None \<Longrightarrow>
   \<exists>err d i. seedInserts fault k rows s = (Inl err, s\<lparr>db := d\<rparr>) \<and> i < length rows \<and>
       fault (Insert (k + i)) = Some err"
proof (induction rows arbitrary: k s)
  case Nil
  then show ?case by simp
next
  case (Cons row rows)
  show ?case
  proof (cases "fault (Insert k)")
    case (Some err)
    then have "seedInserts fault k (row # rows) s = (Inl err, s\<lparr>db := db s\<rparr>) \<and>
        0 < length (row # rows) \<and> fault (Insert (k + 0)) = Some err" by simp
    then show ?thesis by blast
  next
    case None
    with Cons.prems obtain i where i: "i < length (row # rows)" "fault (Insert (k + i)) \<noteq> None"
      by blast
    with None have "i \<noteq> 0" by (cases i) auto
    then obtain j where j: "i = Suc j" by (cases i) auto
    with i have "\<exists>j < length rows. fault (Insert (k + 1 + j)) \<noteq> None" by auto
    from Cons.IH [OF this, of "s\<lparr>db := upsertRow (db s) row\<rparr>"]
    obtain err d j' where r: "seedInserts fault (k + 1) rows (s\<lparr>db := upsertRow (db s) row\<rparr>) =
        (Inl err, s\<lparr>db := d\<rparr>)" "j' < length rows" "fault (Insert (k + 1 + j')) = Some err"
      by auto
    then have "seedInserts fault k (row # rows) s = (Inl err, s\<lparr>db := d\<rparr>) \<and>
        Suc j' < length (row # rows) \<and> fault (Insert (k + Suc j')) = Some err"
      using None by simp
    then show ?thesis by blast
  qed
qed

lemma seedTry_cases:
  assumes "txn s = None"
  shows "(seedTry fault rows s = (Inr (), s\<lparr>db := foldl upsertRow (db s) rows\<rparr>) \<and>
          (\<forall>st \<in> seedSteps rows. fault st = None)) \<or>
         (\<exists>err st. st \<in> seedSteps rows \<and> fault st = Some err \<and>
            (seedTry fault rows s = (Inl err, s) \<or>
             (\<exists>d. seedTry fault rows s = (Inl err, s\<lparr>db := d, txn := Some (db s)\<rparr>))))"
proof (cases "fault ReadSource")
  case (Some err)
  then have "seedTry fault rows s = (Inl err, s)" "ReadSource \<in> seedSteps rows"
    by (simp_all add: seedTry_def seedSteps_def)
  with Some show ?thesis by blast
next
  case rs: None
  show ?thesis
  proof (cases "rows = []")
    case True
    with rs show ?thesis by (simp add: seedTry_def seedSteps_def)
  next
    case ne: False
    show ?thesis
    proof (cases "fault PrepareInsert")
      case (Some err)
      with rs ne have "seedTry fault rows s = (Inl err, s)" "PrepareInsert \<in> seedSteps rows"
        by (simp_all add: seedTry_def seedSteps_def)
      with Some show ?thesis by blast
    next
      case pi: None
      show ?thesis
      proof (cases "fault Begin")
        case (Some err)
        with rs ne pi have "seedTry fault rows s = (Inl err, s)" "Begin \<in> seedSteps rows"
          by (simp_all add: seedTry_def seedSteps_def)
        with Some show ?thesis by blast
      next
        case bg: None
        let ?s1 = "s\<lparr>txn := Some (db s)\<rparr>"
        have b: "execBegin s = Inr ?s1" using assms by (simp add: execBegin_def)
        show ?thesis
        proof (cases "\<forall>i < length rows. fault (Insert (0 + i)) = None")
          case allok: True
          from seedInserts_ok [OF allok, of ?s1]
          have ins: "seedInserts fault 0 rows ?s1 = (Inr (), ?s1\<lparr>db := foldl upsertRow (db s) rows\<rparr>)"
            by simp
          show ?thesis
          proof (cases "fault Commit")
            case (Some err)
            with rs ne pi bg b ins
            have "seedTry fault rows s =
                (Inl err, s\<lparr>db := foldl upsertRow (db s) rows, txn := Some (db s)\<rparr>)"
              "Commit \<in> seedSteps rows"
              by (simp_all add: seedTry_def seedSteps_def)
            with Some show ?thesis by blast
          next
            case cm: None
            with rs ne pi bg b ins
            have "seedTry fault rows s = (Inr (), s\<lparr>db := foldl upsertRow (db s) rows\<rparr>)"
              using assms by (simp add: seedTry_def execCommit_def)
            moreover have "\<forall>st \<in> seedSteps rows. fault st = None"
              using rs ne pi bg cm allok by (auto simp: seedSteps_def)
            ultimately show ?thesis by blast
          qed
        next
          case False
          then have "\<exists>i < length rows. fault (Insert (0 + i)) \<noteq> None" by blast
          from seedInserts_err [OF this, of ?s1]
          obtain err d i where r: "seedInserts fault 0 rows ?s1 = (Inl err, ?s1\<lparr>db := d\<rparr>)"
            "i < length rows" "fault (Insert i) = Some err" by auto
          with rs ne pi bg b
          have "seedTry fault rows s = (Inl err, s\<lparr>db := d, txn := Some (db s)\<rparr>)"
            "Insert i \<in> seedSteps rows"
            by (simp_all add: seedTry_def seedSteps_def)
          with r(3) show ?thesis by blast
        qed
      qed
    qed
  qed
qed

text \<open>
  C7, as the code has it. With caching on and no transaction open on the connection,
  \<^verbatim>\<open>seedEmbeddingCache\<close> either returns, and then every source row has been upserted
  into the target and no step has failed, or it throws the error of the step that
  failed, and then the service, its table included, is as it was before the call. With
  caching off it returns at once and copies nothing.
\<close>

theorem seedEmbeddingCache_atomic:
  "(cache_enabled s \<and> txn s = None \<longrightarrow>
      (case seedEmbeddingCache fault rows s of
         (Inr u, s') \<Rightarrow>
           s' = s\<lparr>db := foldl upsertRow (db s) rows\<rparr> \<and>
           (\<forall>r \<in> set rows. \<exists>r' \<in> set (db s'). sameKey r' r) \<and>
           (\<forall>st \<in> seedSteps rows. fault st = None)
       | (Inl err, s') \<Rightarrow>
           s' = s \<and> (\<exists>st \<in> seedSteps rows. fault st = Some err))) \<and>
   (\<not> cache_enabled s \<longrightarrow> seedEmbeddingCache fault rows s = (Inr (), s))"
proof (intro conjI impI)
  assume "\<not> cache_enabled s"
  then show "seedEmbeddingCache fault rows s = (Inr (), s)" by (simp add: seedEmbeddingCache_def)
next
  assume "cache_enabled s \<and> txn s = None"
  then have hyp: "cache_enabled s" "txn s = None" by simp_all
  show "(case seedEmbeddingCache fault rows s of
         (Inr u, s') \<Rightarrow>
           s' = s\<lparr>db := foldl upsertRow (db s) rows\<rparr> \<and>
           (\<forall>r \<in> set rows. \<exists>r' \<in> set (db s'). sameKey r' r) \<and>
           (\<forall>st \<in> seedSteps rows. fault st = None)
       | (Inl err, s') \<Rightarrow>
           s' = s \<and> (\<exists>st \<in> seedSteps rows. fault st = Some err))"
    (is ?thesis)
  proof -
    have keys: "\<forall>r \<in> set rows. \<exists>r' \<in> set (foldl upsertRow (db s) rows). sameKey r' r"
    proof
      fix r assume "r \<in> set rows"
      then have "rowKey r \<in> rowKey ` set (foldl upsertRow (db s) rows)"
        by (simp add: rowKey_foldl_upsertRow)
      then show "\<exists>r' \<in> set (foldl upsertRow (db s) rows). sameKey r' r"
        by (auto simp: sameKey_rowKey)
    qed
    from seedTry_cases [OF hyp(2), of fault rows]
    consider
      (ok) "seedTry fault rows s = (Inr (), s\<lparr>db := foldl upsertRow (db s) rows\<rparr>)"
           "\<forall>st \<in> seedSteps rows. fault st = None"
    | (early) err st where "st \<in> seedSteps rows" "fault st = Some err" "seedTry fault rows s = (Inl err, s)"
    | (late) err st d where "st \<in> seedSteps rows" "fault st = Some err"
           "seedTry fault rows s = (Inl err, s\<lparr>db := d, txn := Some (db s)\<rparr>)"
      by blast
    then show ?thesis
      proof cases
      case ok
      with hyp keys show ?thesis by (simp add: seedEmbeddingCache_def)
    next
      case early
      with hyp show ?thesis by (auto simp: seedEmbeddingCache_def execRollback_def)
    next
      case late
      with hyp show ?thesis by (auto simp: seedEmbeddingCache_def execRollback_def)
    qed
  qed
qed


lemma seed_fault_sample:
  "seedEmbeddingCache insertFault threeRows sampleService = (Inl err429, sampleService)"
  by (simp add: seedEmbeddingCache_def seedTry_def insertFault_def threeRows_def sampleService_def
      execBegin_def execRollback_def upsertRow_def)

theorem seedEmbeddingCache_atomic_witness:
  "cache_enabled sampleService \<and> txn sampleService = None \<and>
   (case seedEmbeddingCache insertFault threeRows sampleService of
      (Inr u, s') \<Rightarrow>
        s' = sampleService\<lparr>db := foldl upsertRow (db sampleService) threeRows\<rparr> \<and>
        (\<forall>r \<in> set threeRows. \<exists>r' \<in> set (db s'). sameKey r' r) \<and>
        (\<forall>st \<in> seedSteps threeRows. insertFault st = None)
    | (Inl err, s') \<Rightarrow>
        s' = sampleService \<and> (\<exists>st \<in> seedSteps threeRows. insertFault st = Some err)) \<and>
   \<not> cache_enabled (sampleService\<lparr>cache_enabled := False\<rparr>) \<and>
   seedEmbeddingCache insertFault threeRows (sampleService\<lparr>cache_enabled := False\<rparr>) =
     (Inr (), sampleService\<lparr>cache_enabled := False\<rparr>)"
proof -
  have h1: "cache_enabled sampleService" by (simp add: sampleService_def)
  have h2: "txn sampleService = None" by (simp add: sampleService_def)
  have h3: "\<not> cache_enabled (sampleService\<lparr>cache_enabled := False\<rparr>)" by simp
  have a: "(case seedEmbeddingCache insertFault threeRows sampleService of
      (Inr u, s') \<Rightarrow>
        s' = sampleService\<lparr>db := foldl upsertRow (db sampleService) threeRows\<rparr> \<and>
        (\<forall>r \<in> set threeRows. \<exists>r' \<in> set (db s'). sameKey r' r) \<and>
        (\<forall>st \<in> seedSteps threeRows. insertFault st = None)
    | (Inl err, s') \<Rightarrow>
        s' = sampleService \<and> (\<exists>st \<in> seedSteps threeRows. insertFault st = Some err))"
    by (rule mp [OF conjunct1 [OF seedEmbeddingCache_atomic] conjI [OF h1 h2]])
  have b: "seedEmbeddingCache insertFault threeRows (sampleService\<lparr>cache_enabled := False\<rparr>) =
     (Inr (), sampleService\<lparr>cache_enabled := False\<rparr>)"
    by (rule mp [OF conjunct2 [OF seedEmbeddingCache_atomic] h3])
  show ?thesis by (rule conjI h1 h2 h3 a b)+
qed

text \<open>
  C7, as the specification has it, fails with caching off: the source has three rows and
  the target is still empty after the call.
\<close>

theorem seedEmbeddingCache_disabled_counterexample:
  "threeRows \<noteq> [] \<and>
   db (snd (seedEmbeddingCache (\<lambda>st. None) threeRows (sampleService\<lparr>cache_enabled := False\<rparr>))) = []"
  by (simp add: seedEmbeddingCache_def threeRows_def sampleService_def)


subsection \<open>Reading the cache\<close>


lemma set_foldl_uniqueStep:
  "set (foldl uniqueStep acc hashes) = set acc \<union> {h \<in> set hashes. h \<noteq> []}"
  by (induction hashes arbitrary: acc) (auto simp: uniqueStep_def)

lemma foldl_set_rows:
  "foldl (\<lambda>m r. m(row_hash r \<mapsto> row_embedding r)) out rs h =
     (if filter (\<lambda>r. row_hash r = h) rs = [] then out h
      else Some (row_embedding (last (filter (\<lambda>r. row_hash r = h) rs))))"
proof (induction rs rule: rev_induct)
  case Nil
  then show ?case by simp
next
  case (snoc r rs)
  show ?case
  proof (cases "row_hash r = h")
    case True
    then show ?thesis by simp
  next
    case False
    with snoc show ?thesis by simp
  qed
qed

lemma cachedVector_if:
  "cachedVector s h =
     (let rs = filter (\<lambda>r. row_provider r = provider_id s \<and> row_model r = provider_model s \<and>
                        row_provider_key r = providerKey s \<and> row_hash r = h) (db s)
      in if rs = [] then None else Some (row_embedding (last rs)))"
  by (simp add: cachedVector_def Let_def split: list.splits)

lemma filter_selectRows:
  "filter (\<lambda>r. row_hash r = h) (selectRows s batch) =
     (if h \<in> set batch
      then filter (\<lambda>r. row_provider r = provider_id s \<and> row_model r = provider_model s \<and>
                        row_provider_key r = providerKey s \<and> row_hash r = h) (db s)
      else [])"
proof (cases "h \<in> set batch")
  case True
  then show ?thesis by (auto simp: selectRows_def intro: filter_cong)
next
  case False
  then have "\<forall>r \<in> set (selectRows s batch). row_hash r \<noteq> h" by (auto simp: selectRows_def)
  then have "filter (\<lambda>r. row_hash r = h) (selectRows s batch) = []"
    by (simp add: filter_empty_conv)
  with False show ?thesis by simp
qed

lemma load_step:
  "foldl (\<lambda>m r. m(row_hash r \<mapsto> row_embedding r)) out (selectRows s batch) h =
     (if h \<in> set batch then (case cachedVector s h of Some v \<Rightarrow> Some v | None \<Rightarrow> out h) else out h)"
  by (simp add: foldl_set_rows filter_selectRows cachedVector_if Let_def)

lemma loadLoop_eq:
  "loadLoop s unique start out h =
     (if h \<in> set (drop start unique)
      then (case cachedVector s h of Some v \<Rightarrow> Some v | None \<Rightarrow> out h)
      else out h)"
proof (induction s unique start out rule: loadLoop.induct)
  case (1 s unique start out)
  show ?case
  proof (cases "start < length unique")
    case False
    then show ?thesis by (subst loadLoop.simps) simp
  next
    case True
    let ?batch = "take 400 (drop start unique)"
    let ?out = "foldl (\<lambda>m r. m(row_hash r \<mapsto> row_embedding r)) out (selectRows s ?batch)"
    have eq: "loadLoop s unique start out = loadLoop s unique (start + 400) ?out"
      using True by (subst loadLoop.simps) (simp add: Let_def)
    have ih: "loadLoop s unique (start + 400) ?out h =
       (if h \<in> set (drop (start + 400) unique)
        then (case cachedVector s h of Some v \<Rightarrow> Some v | None \<Rightarrow> ?out h)
        else ?out h)"
      using "1.IH" [OF True refl refl] .
    have "drop start unique = ?batch @ drop (start + 400) unique"
      by (metis append_take_drop_id drop_drop add.commute)
    then have st: "set (drop start unique) = set ?batch \<union> set (drop (start + 400) unique)"
      by (metis set_append)
    show ?thesis
      unfolding eq ih load_step st by (auto split: option.splits)
  qed
qed

lemma loadEmbeddingCache_eq:
  "loadEmbeddingCache s hashes h =
     (if cache_enabled s \<and> h \<noteq> [] \<and> h \<in> set hashes then cachedVector s h else None)"
proof -
  have u: "set (foldl uniqueStep [] hashes) = {h \<in> set hashes. h \<noteq> []}"
    by (simp add: set_foldl_uniqueStep)
  show ?thesis
  proof (cases "cache_enabled s \<and> hashes \<noteq> [] \<and> foldl uniqueStep [] hashes \<noteq> []")
    case True
    then have "loadEmbeddingCache s hashes h = loadLoop s (foldl uniqueStep [] hashes) 0 Map.empty h"
      by (simp add: loadEmbeddingCache_def Let_def)
    then show ?thesis using True u by (auto simp: loadLoop_eq split: option.splits)
  next
    case False
    then have e: "loadEmbeddingCache s hashes h = None"
      by (auto simp: loadEmbeddingCache_def Let_def)
    from False u have "\<not> (cache_enabled s \<and> h \<noteq> [] \<and> h \<in> set hashes)"
      by (metis (mono_tags, lifting) empty_iff mem_Collect_eq set_empty)
    with e show ?thesis by auto
  qed
qed


subsection \<open>Cache hits and misses\<close>


lemma splitCached_gen:
  "length cs \<le> n \<Longrightarrow>
   foldl (splitStep cached) (replicate n [], ms) (zip [0..<length cs] cs) =
     (map (\<lambda>c. if servedFromCache cached c then the (cached (hash c)) else []) cs
        @ replicate (n - length cs) [],
      ms @ filter (\<lambda>ic. \<not> servedFromCache cached (snd ic)) (zip [0..<length cs] cs))"
proof (induction cs rule: rev_induct)
  case Nil
  then show ?case by simp
next
  case (snoc c cs)
  let ?val = "\<lambda>c. if servedFromCache cached c then the (cached (hash c)) else []"
  from snoc.prems have len: "length cs < n" by simp
  then have ih: "foldl (splitStep cached) (replicate n [], ms) (zip [0..<length cs] cs) =
     (map ?val cs @ replicate (n - length cs) [],
      ms @ filter (\<lambda>ic. \<not> servedFromCache cached (snd ic)) (zip [0..<length cs] cs))"
    using snoc.IH by simp
  have z: "zip [0..<length (cs @ [c])] (cs @ [c]) = zip [0..<length cs] cs @ [(length cs, c)]"
    by simp
  have r: "replicate (n - length cs) ([]::vector) = [] # replicate (n - length (cs @ [c])) []"
    using len by (cases "n - length cs") auto
  have upd: "(map ?val cs @ replicate (n - length cs) [])[length cs := v] =
             map ?val cs @ [v] @ replicate (n - length (cs @ [c])) []" for v
    by (subst r) (simp add: list_update_append)
  have same: "map ?val cs @ replicate (n - length cs) [] =
             map ?val cs @ [[]] @ replicate (n - length (cs @ [c])) []"
    by (subst r) simp
  show ?case
  proof (cases "servedFromCache cached c")
    case True
    then obtain v where v: "cached (hash c) = Some v" "v \<noteq> []" "hash c \<noteq> []"
      by (auto simp: servedFromCache_def split: option.splits)
    show ?thesis
      unfolding z foldl_append ih
      using True v upd [of v] by (simp add: splitStep_def)
  next
    case False
    show ?thesis
      unfolding z foldl_append ih
      using False same by (auto simp: splitStep_def servedFromCache_def split: option.splits)
  qed
qed

lemma splitCached_eq:
  "splitCached cached chunks =
     (map (\<lambda>c. if servedFromCache cached c then the (cached (hash c)) else []) chunks,
      filter (\<lambda>ic. \<not> servedFromCache cached (snd ic)) (zip [0..<length chunks] chunks))"
  using splitCached_gen [of chunks "length chunks" cached "[]"] by (simp add: splitCached_def)


subsection \<open>The inline path writes each vector to the slot of its chunk\<close>

lemma withTimeout_Inr:
  "withTimeout p (resolveEmbeddingTimeout s k) msg = Inr vs \<Longrightarrow> p = Resolved vs"
  using resolveEmbeddingTimeout_pos [of s k]
  by (cases p) (auto simp: withTimeout_def)

lemma retryLoop_answers:
  "providerAnswers e f \<Longrightarrow> retryLoop e texts attempt s = (Inr vs, s') \<Longrightarrow> vs = map f texts"
proof (induction e texts attempt s rule: retryLoop.induct)
  case (1 e texts attempt s)
  let ?s1 = "s\<lparr>embedBatch_calls := embedBatch_calls s + 1\<rparr>"
  let ?r = "withTimeout (provider_embedBatch e (embedBatch_calls s) texts) (resolveEmbeddingTimeout s False)
       (''memory embeddings batch timed out after '' @ show_nat (roundSeconds (resolveEmbeddingTimeout s False)) @ ''s'')"
  show ?case
  proof (cases ?r)
    case (Inr ws)
    then have "retryLoop e texts attempt s = (Inr ws, ?s1)"
      by (subst retryLoop.simps) (simp add: Let_def)
    with "1.prems" have "ws = vs" by simp
    moreover from Inr have "provider_embedBatch e (embedBatch_calls s) texts = Resolved ws"
      by (rule withTimeout_Inr)
    ultimately show ?thesis using "1.prems"(1) by (simp add: providerAnswers_def)
  next
    case (Inl err)
    show ?thesis
    proof (cases "\<not> isRetryableEmbeddingError (message err) \<or> attempt \<ge> EMBEDDING_RETRY_MAX_ATTEMPTS")
      case True
      with Inl have "retryLoop e texts attempt s = (Inl err, ?s1)"
        by (subst retryLoop.simps) (simp add: Let_def)
      with "1.prems" show ?thesis by simp
    next
      case False
      with Inl have eq: "retryLoop e texts attempt s = retryLoop e texts (attempt + 1) ?s1"
        by (subst retryLoop.simps) (simp add: Let_def)
      from "1.IH" [OF refl refl Inl False "1.prems"(1)] "1.prems"(2) eq
      show ?thesis by simp
    qed
  qed
qed

lemma embedBatchWithRetry_answers:
  "providerAnswers e f \<Longrightarrow> embedBatchWithRetry e texts s = (Inr vs, s') \<Longrightarrow> vs = map f texts"
  by (cases "texts = []") (auto simp: embedBatchWithRetry_def dest: retryLoop_answers)

text \<open>The writes of the inner loop of one bin, when the provider answered for the bin.\<close>

lemma assign_answers:
  assumes "map snd (take (length batch) (drop cursor missing)) = batch"
    and "k \<le> length batch"
  shows "foldl (assignStep missing cursor (map f (map text' batch))) (em, tc) [0..<k] =
     (foldl (\<lambda>em ic. em[fst ic := f (text' (snd ic))]) em (take k (drop cursor missing)),
      tc @ map (\<lambda>ic. (hash (snd ic), f (text' (snd ic)))) (take k (drop cursor missing)))"
  using assms(2)
proof (induction k)
  case 0
  then show ?case by simp
next
  case (Suc k)
  let ?d = "drop cursor missing"
  from assms(1) have "length (take (length batch) ?d) = length batch"
    by (metis length_map)
  with Suc.prems have kd: "k < length ?d" by simp
  then have km: "cursor + k < length missing" by simp
  have t: "take (Suc k) ?d = take k ?d @ [?d ! k]" using kd by (simp add: take_Suc_conv_app_nth)
  have dk: "?d ! k = missing ! (cursor + k)" using km by simp
  have "batch ! k = map snd (take (length batch) ?d) ! k" using assms(1) by simp
  also have "\<dots> = snd (?d ! k)" using Suc.prems kd by simp
  finally have bk: "batch ! k = snd (missing ! (cursor + k))" using dk by simp
  from Suc have ih: "foldl (assignStep missing cursor (map f (map text' batch))) (em, tc) [0..<k] =
     (foldl (\<lambda>em ic. em[fst ic := f (text' (snd ic))]) em (take k ?d),
      tc @ map (\<lambda>ic. (hash (snd ic), f (text' (snd ic)))) (take k ?d))" by simp
  obtain i c where ic: "missing ! (cursor + k) = (i, c)" by (cases "missing ! (cursor + k)") auto
  with bk have c: "batch ! k = c" by simp
  let ?A = "assignStep missing cursor (map f (map text' batch))"
  let ?X = "foldl (\<lambda>em ic. em[fst ic := f (text' (snd ic))]) em (take k ?d)"
  let ?Y = "tc @ map (\<lambda>ic. (hash (snd ic), f (text' (snd ic)))) (take k ?d)"
  have "foldl ?A (em, tc) [0..<Suc k] = ?A (foldl ?A (em, tc) [0..<k]) k" by simp
  also have "\<dots> = ?A (?X, ?Y) k" by (simp only: ih)
  also have "\<dots> = (?X[i := f (text' c)], ?Y @ [(hash c, f (text' c))])"
    using Suc.prems km ic c by (simp add: assignStep_def Let_def)
  also have "\<dots> = (foldl (\<lambda>em ic. em[fst ic := f (text' (snd ic))]) em (take (Suc k) ?d),
      tc @ map (\<lambda>ic. (hash (snd ic), f (text' (snd ic)))) (take (Suc k) ?d))"
    by (simp add: t dk ic)
  finally show ?case .
qed


lemma embedBins_answers:
  assumes "providerAnswers e f"
  shows "map snd (drop cursor missing) = concat batches \<Longrightarrow>
     embedBins e missing batches cursor em tc s = (Inr (em', tc'), s') \<Longrightarrow>
     em' = foldl (\<lambda>em ic. em[fst ic := f (text' (snd ic))]) em (drop cursor missing) \<and>
     tc' = tc @ map (\<lambda>ic. (hash (snd ic), f (text' (snd ic)))) (drop cursor missing)"
proof (induction batches arbitrary: cursor em tc s)
  case Nil
  then show ?case by simp
next
  case (Cons batch batches)
  let ?d = "drop cursor missing"
  from Cons.prems(1) have al: "map snd ?d = batch @ concat batches" by simp
  then have "length ?d = length batch + length (concat batches)"
    by (metis length_append length_map)
  then have lb: "length batch \<le> length ?d" by simp
  have tk: "map snd (take (length batch) ?d) = batch"
    using al by (metis append_eq_conv_conj take_map)
  have dr: "map snd (drop (cursor + length batch) missing) = concat batches"
    using al by (metis append_eq_conv_conj drop_map drop_drop add.commute)
  obtain r s1 where r: "embedBatchWithRetry e (map text' batch) s = (r, s1)"
    by (cases "embedBatchWithRetry e (map text' batch) s") auto
  show ?case
  proof (cases r)
    case (Inl err)
    with r Cons.prems(2) show ?thesis by simp
  next
    case (Inr vs)
    with r assms have vs: "vs = map f (map text' batch)"
      by (auto dest: embedBatchWithRetry_answers)
    let ?em1 = "foldl (\<lambda>em ic. em[fst ic := f (text' (snd ic))]) em (take (length batch) ?d)"
    let ?tc1 = "tc @ map (\<lambda>ic. (hash (snd ic), f (text' (snd ic)))) (take (length batch) ?d)"
    have a: "foldl (assignStep missing cursor vs) (em, tc) [0..<length batch] = (?em1, ?tc1)"
      unfolding vs using assign_answers [OF tk, of "length batch" f em tc] by simp
    from Cons.prems(2) r Inr a
    have "embedBins e missing batches (cursor + length batch) ?em1 ?tc1 s1 = (Inr (em', tc'), s')"
      by simp
    from Cons.IH [OF dr this]
    have em': "em' = foldl (\<lambda>em ic. em[fst ic := f (text' (snd ic))]) ?em1
                  (drop (cursor + length batch) missing)"
      and tc': "tc' = ?tc1 @ map (\<lambda>ic. (hash (snd ic), f (text' (snd ic))))
                  (drop (cursor + length batch) missing)"
      by simp_all
    have split: "?d = take (length batch) ?d @ drop (cursor + length batch) missing"
      by (metis append_take_drop_id drop_drop add.commute)
    have "foldl (\<lambda>em ic. em[fst ic := f (text' (snd ic))]) em ?d =
          foldl (\<lambda>em ic. em[fst ic := f (text' (snd ic))]) ?em1 (drop (cursor + length batch) missing)"
      by (subst split) (simp only: foldl_append)
    moreover have "map (\<lambda>ic. (hash (snd ic), f (text' (snd ic)))) ?d =
          map (\<lambda>ic. (hash (snd ic), f (text' (snd ic)))) (take (length batch) ?d) @
          map (\<lambda>ic. (hash (snd ic), f (text' (snd ic)))) (drop (cursor + length batch) missing)"
      by (subst split) (simp only: map_append)
    ultimately show ?thesis using em' tc' by simp
  qed
qed

text \<open>Whatever the provider answers, only the slots of missing chunks are written.\<close>

lemma assign_keeps:
  "foldl (assignStep missing cursor vs) (em, tc) ks = (em', tc') \<Longrightarrow>
   length em' = length em \<and> (\<forall>j. j \<notin> fst ` set missing \<longrightarrow> em' ! j = em ! j)"
proof (induction ks arbitrary: em' tc' rule: rev_induct)
  case Nil
  then show ?case by simp
next
  case (snoc k ks)
  obtain em1 tc1 where p: "foldl (assignStep missing cursor vs) (em, tc) ks = (em1, tc1)"
    by (cases "foldl (assignStep missing cursor vs) (em, tc) ks") auto
  from snoc.IH [OF p] have ih: "length em1 = length em" "\<forall>j. j \<notin> fst ` set missing \<longrightarrow> em1 ! j = em ! j"
    by simp_all
  from snoc.prems p have st: "assignStep missing cursor vs (em1, tc1) k = (em', tc')" by simp
  show ?case
  proof (cases "cursor + k < length missing")
    case False
    with st have "em' = em1" by (simp add: assignStep_def Let_def)
    with ih show ?thesis by simp
  next
    case True
    obtain i c where ic: "missing ! (cursor + k) = (i, c)" by (cases "missing ! (cursor + k)") auto
    with True have "(i, c) \<in> set missing" by (metis nth_mem)
    then have im: "i \<in> fst ` set missing" by force
    from st True ic obtain v where v: "em' = em1[i := v]" by (auto simp: assignStep_def Let_def)
    have "em' ! j = em ! j" if "j \<notin> fst ` set missing" for j
    proof -
      from that im have "j \<noteq> i" by blast
      then have "em' ! j = em1 ! j" by (simp add: v)
      with ih(2) that show ?thesis by simp
    qed
    with ih(1) v show ?thesis by simp
  qed
qed

lemma embedBins_keeps:
  "embedBins e missing batches cursor em tc s = (Inr (em', tc'), s') \<Longrightarrow>
   length em' = length em \<and> (\<forall>j. j \<notin> fst ` set missing \<longrightarrow> em' ! j = em ! j)"
proof (induction batches arbitrary: cursor em tc s)
  case Nil
  then show ?case by simp
next
  case (Cons batch batches)
  obtain r s1 where r: "embedBatchWithRetry e (map text' batch) s = (r, s1)"
    by (cases "embedBatchWithRetry e (map text' batch) s") auto
  show ?case
  proof (cases r)
    case (Inl err)
    with r Cons.prems show ?thesis by simp
  next
    case (Inr vs)
    obtain em1 tc1 where a: "foldl (assignStep missing cursor vs) (em, tc) [0..<length batch] = (em1, tc1)"
      by (cases "foldl (assignStep missing cursor vs) (em, tc) [0..<length batch]") auto
    from assign_keeps [OF a] have k1: "length em1 = length em"
      "\<forall>j. j \<notin> fst ` set missing \<longrightarrow> em1 ! j = em ! j" by simp_all
    from Cons.prems r Inr a
    have "embedBins e missing batches (cursor + length batch) em1 tc1 s1 = (Inr (em', tc'), s')"
      by simp
    from Cons.IH [OF this] k1 show ?thesis by simp
  qed
qed

text \<open>The missing list pairs every chunk that cannot be served with its index.\<close>

lemma in_zip_upt: "(i, c) \<in> set (zip [0..<length cs] cs) \<longleftrightarrow> i < length cs \<and> c = cs ! i"
proof
  assume "(i, c) \<in> set (zip [0..<length cs] cs)"
  then obtain n where "[0..<length cs] ! n = i" "cs ! n = c" "n < length cs"
    by (auto simp: in_set_zip)
  then show "i < length cs \<and> c = cs ! i" by simp
next
  assume "i < length cs \<and> c = cs ! i"
  then have "[0..<length cs] ! i = fst (i, c) \<and> cs ! i = snd (i, c) \<and>
      i < length [0..<length cs] \<and> i < length cs" by simp
  then show "(i, c) \<in> set (zip [0..<length cs] cs)"
    unfolding in_set_zip by blast
qed

lemma in_missing:
  "(i, c) \<in> set (filter (\<lambda>ic. \<not> servedFromCache cached (snd ic)) (zip [0..<length chunks] chunks))
   \<longleftrightarrow> i < length chunks \<and> c = chunks ! i \<and> \<not> servedFromCache cached c"
  by (auto simp: in_zip_upt)

lemma fst_missing:
  "i \<in> fst ` set (filter (\<lambda>ic. \<not> servedFromCache cached (snd ic)) (zip [0..<length chunks] chunks))
   \<longleftrightarrow> i < length chunks \<and> \<not> servedFromCache cached (chunks ! i)"
proof -
  have "i \<in> fst ` set (filter (\<lambda>ic. \<not> servedFromCache cached (snd ic)) (zip [0..<length chunks] chunks))
    \<longleftrightarrow> (\<exists>c. (i, c) \<in> set (filter (\<lambda>ic. \<not> servedFromCache cached (snd ic)) (zip [0..<length chunks] chunks)))"
    by force
  then show ?thesis by (simp only: in_missing) blast
qed

lemma foldl_write_nth:
  assumes "\<forall>ic \<in> set items. fst ic < length em \<and> snd ic = chunks ! fst ic"
    and "j < length em"
  shows "length (foldl (\<lambda>em ic. em[fst ic := f (text' (snd ic))]) em items) = length em \<and>
     foldl (\<lambda>em ic. em[fst ic := f (text' (snd ic))]) em items ! j =
       (if j \<in> fst ` set items then f (text' (chunks ! j)) else em ! j)"
  using assms(1)
proof (induction items rule: rev_induct)
  case Nil
  then show ?case by simp
next
  case (snoc ic items)
  then have ih: "length (foldl (\<lambda>em ic. em[fst ic := f (text' (snd ic))]) em items) = length em"
    "foldl (\<lambda>em ic. em[fst ic := f (text' (snd ic))]) em items ! j =
       (if j \<in> fst ` set items then f (text' (chunks ! j)) else em ! j)"
    by simp_all
  from snoc.prems have ic: "fst ic < length em" "snd ic = chunks ! fst ic" by simp_all
  show ?case
    using ih ic assms(2) by (auto simp: nth_list_update)
qed


lemma embedChunksInBatches_unfold:
  "embedChunksInBatches e chunks s =
     (let cached = loadEmbeddingCache s (map hash chunks);
          em = map (\<lambda>c. if servedFromCache cached c then the (cached (hash c)) else []) chunks;
          missing = filter (\<lambda>ic. \<not> servedFromCache cached (snd ic)) (zip [0..<length chunks] chunks)
      in if missing = [] then (Inr em, s)
         else case embedBins e missing (buildEmbeddingBatches (map snd missing)) 0 em [] s of
                (Inl err, s1) \<Rightarrow> (Inl err, s1)
              | (Inr (em1, tc), s1) \<Rightarrow> (Inr em1, upsertEmbeddingCache tc s1))"
  by (cases "chunks = []") (simp_all add: embedChunksInBatches_def splitCached_eq Let_def)

text \<open>What a successful call of the inline path returns.\<close>

lemma embedChunksInBatches_Inr:
  assumes "embedChunksInBatches e chunks s = (Inr out, s')"
  shows "length out = length chunks"
    and "\<forall>i < length chunks.
           servedFromCache (loadEmbeddingCache s (map hash chunks)) (chunks ! i) \<longrightarrow>
           out ! i = the (loadEmbeddingCache s (map hash chunks) (hash (chunks ! i)))"
    and "providerAnswers e f \<Longrightarrow>
           out = map (vectorFor (loadEmbeddingCache s (map hash chunks)) f) chunks"
proof -
  let ?cached = "loadEmbeddingCache s (map hash chunks)"
  let ?val = "\<lambda>c. if servedFromCache ?cached c then the (?cached (hash c)) else []"
  let ?missing = "filter (\<lambda>ic. \<not> servedFromCache ?cached (snd ic)) (zip [0..<length chunks] chunks)"
  let ?em = "map ?val chunks"
  have sp: "splitCached ?cached chunks = (?em, ?missing)" by (rule splitCached_eq)
  have goal: "length out = length chunks \<and>
    (\<forall>i < length chunks. servedFromCache ?cached (chunks ! i) \<longrightarrow> out ! i = the (?cached (hash (chunks ! i)))) \<and>
    (providerAnswers e f \<longrightarrow> out = map (vectorFor ?cached f) chunks)"
  proof (cases "?missing = []")
    case True
    then have "embedChunksInBatches e chunks s = (Inr ?em, s)"
      by (simp add: embedChunksInBatches_unfold Let_def)
    then have "fst (embedChunksInBatches e chunks s) = Inr ?em" by (simp only: fst_conv)
    moreover from assms have "fst (embedChunksInBatches e chunks s) = Inr out"
      by (simp only: fst_conv)
    ultimately have "(Inr out :: js_error + vector list) = Inr ?em" by (simp only:)
    then have o: "out = ?em" by (simp only: sum.inject)
    have "\<forall>c \<in> set chunks. servedFromCache ?cached c" if "?missing = []"
    proof
      fix c assume "c \<in> set chunks"
      then obtain i where i: "i < length chunks" "c = chunks ! i" by (metis in_set_conv_nth)
      show "servedFromCache ?cached c"
      proof (rule ccontr)
        assume "\<not> servedFromCache ?cached c"
        with i have "(i, c) \<in> set ?missing" by (simp only: in_missing) simp
        with that show False by simp
      qed
    qed
    with True have "\<forall>c \<in> set chunks. servedFromCache ?cached c" by blast
    then have "map (vectorFor ?cached f) chunks = ?em" by (simp add: vectorFor_def)
    with o show ?thesis by simp
  next
    case False
    let ?bins = "buildEmbeddingBatches (map snd ?missing)"
    obtain r s1 where b: "embedBins e ?missing ?bins 0 ?em [] s = (r, s1)"
      by (cases "embedBins e ?missing ?bins 0 ?em [] s") auto
    from False b have "embedChunksInBatches e chunks s =
        (case r of Inl err \<Rightarrow> (Inl err, s1)
         | Inr p \<Rightarrow> (Inr (fst p), upsertEmbeddingCache (snd p) s1))"
      by (simp add: embedChunksInBatches_unfold Let_def split: sum.splits prod.splits)
    with assms obtain tc where r: "r = Inr (out, tc)"
      by (cases r) auto
    from embedBins_keeps [OF b [unfolded r]]
    have len: "length out = length ?em" and keep: "\<forall>j. j \<notin> fst ` set ?missing \<longrightarrow> out ! j = ?em ! j"
      by simp_all
    have served: "out ! i = the (?cached (hash (chunks ! i)))"
      if "i < length chunks" "servedFromCache ?cached (chunks ! i)" for i
    proof -
      from that have "i \<notin> fst ` set ?missing" by (simp only: fst_missing) simp
      with keep have "out ! i = ?em ! i" by blast
      with that show ?thesis by simp
    qed
    have ans: "out = map (vectorFor ?cached f) chunks" if pa: "providerAnswers e f"
    proof -
      have al: "map snd (drop 0 ?missing) = concat ?bins"
        using buildEmbeddingBatches_bins [of "map snd ?missing"] by simp
      from embedBins_answers [OF pa al b [unfolded r]]
      have o: "out = foldl (\<lambda>em ic. em[fst ic := f (text' (snd ic))]) ?em ?missing" by simp
      have items: "\<forall>ic \<in> set ?missing. fst ic < length ?em \<and> snd ic = chunks ! fst ic"
      proof
        fix ic assume "ic \<in> set ?missing"
        then have "(fst ic, snd ic) \<in> set ?missing" by simp
        then show "fst ic < length ?em \<and> snd ic = chunks ! fst ic"
          by (simp only: in_missing) simp
      qed
      show ?thesis
      proof (rule nth_equalityI)
        show "length out = length (map (vectorFor ?cached f) chunks)" using len by simp
      next
        fix j assume "j < length out"
        with len have j: "j < length ?em" by simp
        from foldl_write_nth [OF items j, of f]
        have "out ! j = (if j \<in> fst ` set ?missing then f (text' (chunks ! j)) else ?em ! j)"
          by (simp only: o)
        also have "\<dots> = vectorFor ?cached f (chunks ! j)"
          using j by (simp only: fst_missing) (simp add: vectorFor_def)
        finally show "out ! j = map (vectorFor ?cached f) chunks ! j" using j by simp
      qed
    qed
    from len served ans show ?thesis by simp
  qed
  from goal show "length out = length chunks" by blast
  from goal show "\<forall>i < length chunks. servedFromCache ?cached (chunks ! i) \<longrightarrow>
      out ! i = the (?cached (hash (chunks ! i)))" by blast
  from goal show "providerAnswers e f \<Longrightarrow> out = map (vectorFor ?cached f) chunks" by blast
qed


subsection \<open>The batch path reads the same cache\<close>

lemma loadEmbeddingCache_sameCache:
  "sameCache s t \<Longrightarrow> loadEmbeddingCache t hashes = loadEmbeddingCache s hashes"
  by (rule ext) (simp add: loadEmbeddingCache_eq cachedVector_def sameCache_def)

lemma sameCache_refl: "sameCache s s"
  by (simp add: sameCache_def)

lemma sameCache_trans: "sameCache s t \<Longrightarrow> sameCache t u \<Longrightarrow> sameCache s u"
  by (simp add: sameCache_def)

lemma runOpenAi_frame:
  "snd (runOpenAi e reqs s) = s\<lparr>openAiBatch_calls := openAiBatch_calls s + 1\<rparr>"
  by (simp add: runOpenAi_def)

lemma runGemini_frame:
  "snd (runGemini e reqs s) = s\<lparr>geminiBatch_calls := geminiBatch_calls s + 1\<rparr>"
  by (simp add: runGemini_def)

text \<open>A run closure that only counts its call: the two closures of the batch methods.\<close>

lemma runBatchWithTimeoutRetry_sameCache:
  assumes "\<forall>s. sameCache s (snd (run s)) \<and> batch_enabled (snd (run s)) = batch_enabled s"
  shows "sameCache s (snd (runBatchWithTimeoutRetry p run s)) \<and>
         batch_enabled (snd (runBatchWithTimeoutRetry p run s)) = batch_enabled s"
proof -
  obtain r s1 where r: "run s = (r, s1)" by (cases "run s") auto
  obtain r2 s2 where r2: "run s1 = (r2, s2)" by (cases "run s1") auto
  from assms [rule_format, of s] r have a1: "sameCache s s1" "batch_enabled s1 = batch_enabled s"
    by simp_all
  from assms [rule_format, of s1] r2 have a2: "sameCache s1 s2" "batch_enabled s2 = batch_enabled s1"
    by simp_all
  from a1 a2 have a3: "sameCache s s2" "batch_enabled s2 = batch_enabled s"
    by (auto intro: sameCache_trans)
  have "snd (runBatchWithTimeoutRetry p run s) = s1 \<or> snd (runBatchWithTimeoutRetry p run s) = s2"
    using r r2 by (auto simp: runBatchWithTimeoutRetry_def split: sum.splits)
  with a1 a3 show ?thesis by auto
qed

lemma recordBatchFailure_sameCache: "sameCache s (snd (recordBatchFailure p m a fd s))"
  by (simp add: recordBatchFailure_def sameCache_def Let_def)

lemma resetBatchFailureCount_sameCache: "sameCache s (resetBatchFailureCount s)"
  by (simp add: resetBatchFailureCount_def sameCache_def)

text \<open>The two ways in which \<^verbatim>\<open>runBatchWithFallback\<close> ends when it returns a result.\<close>

lemma runBatchWithFallback_cases:
  assumes "\<forall>s. sameCache s (snd (run s)) \<and> batch_enabled (snd (run s)) = batch_enabled s"
    and ok: "fst (runBatchWithFallback p run fallback s) = Inr x"
  shows "(\<exists>kvs s1. runBatchWithTimeoutRetry p run s = (Inr kvs, s1) \<and> batch_enabled s \<and>
            runBatchWithFallback p run fallback s = (Inr (FromRun kvs), resetBatchFailureCount s1)) \<or>
         (\<exists>t. sameCache s t \<and>
            runBatchWithFallback p run fallback s =
              (map_sum id FromFallback (fst (fallback t)), snd (fallback t)))"
proof (cases "batch_enabled s")
  case False
  then have "runBatchWithFallback p run fallback s =
      (map_sum id FromFallback (fst (fallback s)), snd (fallback s))"
    by (simp add: runBatchWithFallback_def split: prod.splits)
  with sameCache_refl [of s] show ?thesis by blast
next
  case True
  obtain r s1 where r: "runBatchWithTimeoutRetry p run s = (r, s1)"
    by (cases "runBatchWithTimeoutRetry p run s") auto
  from runBatchWithTimeoutRetry_sameCache [OF assms(1), of s p] r have c1: "sameCache s s1" by simp
  show ?thesis
  proof (cases r)
    case (Inr kvs)
    with True r show ?thesis by (simp add: runBatchWithFallback_def)
  next
    case (Inl err)
    show ?thesis
    proof (cases "getBatchAttempts err")
      case (Inl typeError)
      with True r \<open>r = Inl err\<close> have "runBatchWithFallback p run fallback s = (Inl typeError, s1)"
        by (simp add: runBatchWithFallback_def)
      with ok show ?thesis by simp
    next
      case (Inr a)
      let ?t = "snd (recordBatchFailure p (message err)
          (case a of None \<Rightarrow> Some 1 | Some a \<Rightarrow> Some a)
          (isForceDisableError (message err)) s1)"
      have "sameCache s ?t" using c1 recordBatchFailure_sameCache by (rule sameCache_trans)
      moreover have "runBatchWithFallback p run fallback s =
          (map_sum id FromFallback (fst (fallback ?t)), snd (fallback ?t))"
        using True r \<open>r = Inl err\<close> Inr by (simp add: runBatchWithFallback_def Let_def split: prod.splits)
      ultimately show ?thesis by blast
    qed
  qed
qed


subsection \<open>Reconciling a batch result by custom ID\<close>

text \<open>Every entry of the mapping comes from a missing chunk.\<close>

lemma buildMapping_gen:
  "foldl (\<lambda>m item. m(customId e src entry item \<mapsto> (fst item, hash (snd item)))) m0 items k = Some ih
   \<Longrightarrow> m0 k = Some ih \<or> (\<exists>item \<in> set items. k = customId e src entry item \<and> ih = (fst item, hash (snd item)))"
proof (induction items arbitrary: ih rule: rev_induct)
  case Nil
  then show ?case by simp
next
  case (snoc item items)
  show ?case
  proof (cases "k = customId e src entry item")
    case True
    with snoc.prems have "ih = (fst item, hash (snd item))" by simp
    with True show ?thesis by auto
  next
    case False
    let ?st = "\<lambda>m item. m(customId e src entry item \<mapsto> (fst item, hash (snd item)))"
    from snoc.prems have "((foldl ?st m0 items)(customId e src entry item \<mapsto> (fst item, hash (snd item)))) k = Some ih"
      by (simp only: foldl_append foldl.simps)
    with False have "foldl ?st m0 items k = Some ih"
      by (simp only: fun_upd_apply if_False)
    from snoc.IH [OF this] show ?thesis by auto
  qed
qed

lemma buildMapping_Some:
  "buildMapping e src entry missing k = Some ih \<Longrightarrow>
   \<exists>item \<in> set missing. k = customId e src entry item \<and> ih = (fst item, hash (snd item))"
  using buildMapping_gen [of e src entry Map.empty missing k ih] by (simp add: buildMapping_def)

lemma buildMapping_distinct_gen:
  "distinct (map (customId e src entry) items) \<Longrightarrow> item \<in> set items \<Longrightarrow>
   foldl (\<lambda>m item. m(customId e src entry item \<mapsto> (fst item, hash (snd item)))) m0 items
     (customId e src entry item) = Some (fst item, hash (snd item))"
proof (induction items rule: rev_induct)
  case Nil
  then show ?case by simp
next
  case (snoc x items)
  show ?case
  proof (cases "item = x")
    case True
    then show ?thesis by simp
  next
    case False
    with snoc.prems have in_items: "item \<in> set items" by simp
    from snoc.prems(1) have d: "distinct (map (customId e src entry) items)"
      and nx: "customId e src entry x \<notin> customId e src entry ` set items" by simp_all
    from in_items nx have "customId e src entry item \<noteq> customId e src entry x"
      by (metis imageI)
    with snoc.IH [OF d in_items] show ?thesis by simp
  qed
qed

lemma buildMapping_distinct:
  "distinct (map (customId e src entry) missing) \<Longrightarrow> item \<in> set missing \<Longrightarrow>
   buildMapping e src entry missing (customId e src entry item) = Some (fst item, hash (snd item))"
  by (simp add: buildMapping_def buildMapping_distinct_gen)

text \<open>The reconciliation writes only slots of missing chunks.\<close>

lemma reconcile_keeps:
  assumes "\<forall>k i h. mapping k = Some (i, h) \<longrightarrow> i \<in> I"
  shows "foldl (reconcileStep mapping) (em, tc) kvs = (em', tc') \<Longrightarrow>
     length em' = length em \<and> (\<forall>j. j \<notin> I \<longrightarrow> em' ! j = em ! j)"
proof (induction kvs arbitrary: em' tc' rule: rev_induct)
  case Nil
  then show ?case by simp
next
  case (snoc kv kvs)
  obtain em1 tc1 where p: "foldl (reconcileStep mapping) (em, tc) kvs = (em1, tc1)"
    by (cases "foldl (reconcileStep mapping) (em, tc) kvs") auto
  from snoc.IH [OF p] have ih: "length em1 = length em" "\<forall>j. j \<notin> I \<longrightarrow> em1 ! j = em ! j"
    by simp_all
  from snoc.prems p have st: "reconcileStep mapping (em1, tc1) kv = (em', tc')" by simp
  obtain cid v where kv: "kv = (cid, v)" by (cases kv) auto
  show ?case
  proof (cases "mapping cid")
    case None
    with st kv have "em' = em1" by (simp add: reconcileStep_def)
    with ih show ?thesis by simp
  next
    case (Some ih')
    obtain i h where ih': "ih' = (i, h)" by (cases ih') auto
    with Some assms have iI: "i \<in> I" by blast
    from st kv Some ih' have e: "em' = em1[i := v]" by (simp add: reconcileStep_def)
    have "em' ! j = em ! j" if "j \<notin> I" for j
    proof -
      from that iI have "j \<noteq> i" by blast
      then have "em' ! j = em1 ! j" by (simp add: e)
      with ih(2) that show ?thesis by simp
    qed
    with ih(1) e show ?thesis by simp
  qed
qed

text \<open>With every written value determined by its slot, the result is known slot by slot.\<close>

lemma reconcile_nth:
  assumes "\<forall>kv \<in> set kvs. \<forall>i h. mapping (fst kv) = Some (i, h) \<longrightarrow> i < length em \<and> snd kv = g i"
    and "j < length em"
  shows "foldl (reconcileStep mapping) (em, tc) kvs = (em', tc') \<Longrightarrow>
     length em' = length em \<and>
     em' ! j = (if \<exists>kv \<in> set kvs. \<exists>h. mapping (fst kv) = Some (j, h) then g j else em ! j)"
  using assms(1)
proof (induction kvs arbitrary: em' tc' rule: rev_induct)
  case Nil
  then show ?case by simp
next
  case (snoc kv kvs)
  obtain em1 tc1 where p: "foldl (reconcileStep mapping) (em, tc) kvs = (em1, tc1)"
    by (cases "foldl (reconcileStep mapping) (em, tc) kvs") auto
  from snoc.prems(2) have a: "\<forall>kv \<in> set kvs. \<forall>i h. mapping (fst kv) = Some (i, h) \<longrightarrow> i < length em \<and> snd kv = g i"
    by simp
  from snoc.IH [OF p a] have ih: "length em1 = length em"
    "em1 ! j = (if \<exists>kv \<in> set kvs. \<exists>h. mapping (fst kv) = Some (j, h) then g j else em ! j)"
    by simp_all
  from snoc.prems(1) p have st: "reconcileStep mapping (em1, tc1) kv = (em', tc')" by simp
  obtain cid v where kv: "kv = (cid, v)" by (cases kv) auto
  show ?case
  proof (cases "mapping cid")
    case None
    with st kv have e: "em' = em1" by (simp add: reconcileStep_def)
    from None kv have "\<not> (\<exists>h. mapping (fst kv) = Some (j, h))" by simp
    with e ih show ?thesis by simp
  next
    case (Some ih')
    obtain i h where ih': "ih' = (i, h)" by (cases ih') auto
    from snoc.prems(2) kv Some ih' have iv: "i < length em" "v = g i" by auto
    from st kv Some ih' have e: "em' = em1[i := v]" by (simp add: reconcileStep_def)
    show ?thesis
    proof (cases "i = j")
      case True
      with e iv ih(1) assms(2) have "em' ! j = g j" by simp
      moreover from True kv Some ih' have "\<exists>h. mapping (fst kv) = Some (j, h)" by simp
      ultimately show ?thesis using e ih(1) by simp
    next
      case False
      with e have "em' ! j = em1 ! j" by simp
      moreover from False kv Some ih' have "\<not> (\<exists>h. mapping (fst kv) = Some (j, h))" by simp
      ultimately show ?thesis using e ih by simp
    qed
  qed
qed


lemma runBatchWithTimeoutRetry_Inr:
  "runBatchWithTimeoutRetry p run s = (Inr kvs, s1) \<Longrightarrow> \<exists>t t1. run t = (Inr kvs, t1)"
  by (auto simp: runBatchWithTimeoutRetry_def split: sum.splits prod.splits if_splits)

lemma finishBatch_FromRun:
  "finishBatch mapping em (Inr (FromRun kvs), s1) = (Inr out, s') \<Longrightarrow>
   \<exists>tc. foldl (reconcileStep mapping) (em, []) kvs = (out, tc)"
  by (auto simp: finishBatch_def split: prod.splits)

lemma finishBatch_Inr:
  "finishBatch mapping em res = (Inr out, s') \<Longrightarrow> \<exists>x. fst res = Inr x"
  by (cases res) (auto simp: finishBatch_def split: sum.splits)

lemma finishBatch_FromFallback:
  "finishBatch mapping em (map_sum id FromFallback r, t) = (Inr out, s') \<Longrightarrow> r = Inr out \<and> t = s'"
  by (cases r) (auto simp: finishBatch_def)

lemma batch_Inr:
  fixes chunks :: "chunk list" and s :: service
  defines "cached \<equiv> loadEmbeddingCache s (map hash chunks)"
  defines "em \<equiv> map (\<lambda>c. if servedFromCache cached c then the (cached (hash c)) else []) chunks"
  defines "missing \<equiv> filter (\<lambda>ic. \<not> servedFromCache cached (snd ic)) (zip [0..<length chunks] chunks)"
  assumes fr: "\<forall>s. sameCache s (snd (run s)) \<and> batch_enabled (snd (run s)) = batch_enabled s"
    and res: "finishBatch (buildMapping e src entry missing) em
        (runBatchWithFallback p run (embedChunksInBatches e chunks) s) = (Inr out, s')"
  shows "length out = length chunks"
    and "\<forall>i < length chunks. servedFromCache cached (chunks ! i) \<longrightarrow> out ! i = the (cached (hash (chunks ! i)))"
    and "providerAnswers e f \<Longrightarrow>
         (\<forall>t kvs t1. run t = (Inr kvs, t1) \<longrightarrow>
            answersRequests f (map (\<lambda>ic. (customId e src entry ic, text' (snd ic))) missing) kvs) \<Longrightarrow>
         distinct (map (customId e src entry) missing) \<Longrightarrow>
         out = map (vectorFor cached f) chunks"
proof -
  let ?mapping = "buildMapping e src entry missing"
  let ?g = "\<lambda>j. f (text' (chunks ! j))"
  have lem: "length em = length chunks" by (simp add: em_def)
  have mapI: "\<forall>k i h. ?mapping k = Some (i, h) \<longrightarrow> i \<in> fst ` set missing"
  proof (intro allI impI)
    fix k i h assume "?mapping k = Some (i, h)"
    from buildMapping_Some [OF this] obtain item where "item \<in> set missing" "i = fst item" by auto
    then show "i \<in> fst ` set missing" by (metis imageI)
  qed
  from finishBatch_Inr [OF res] obtain x where
    okx: "fst (runBatchWithFallback p run (embedChunksInBatches e chunks) s) = Inr x" by blast
  have goal: "length out = length chunks \<and>
     (\<forall>i < length chunks. servedFromCache cached (chunks ! i) \<longrightarrow> out ! i = the (cached (hash (chunks ! i)))) \<and>
     (providerAnswers e f \<longrightarrow>
        (\<forall>t kvs t1. run t = (Inr kvs, t1) \<longrightarrow>
            answersRequests f (map (\<lambda>ic. (customId e src entry ic, text' (snd ic))) missing) kvs) \<longrightarrow>
        distinct (map (customId e src entry) missing) \<longrightarrow>
        out = map (vectorFor cached f) chunks)"
    using runBatchWithFallback_cases [OF fr okx]
  proof
    assume "\<exists>kvs s1. runBatchWithTimeoutRetry p run s = (Inr kvs, s1) \<and> batch_enabled s \<and>
        runBatchWithFallback p run (embedChunksInBatches e chunks) s =
          (Inr (FromRun kvs), resetBatchFailureCount s1)"
    then obtain kvs s1 where rr: "runBatchWithTimeoutRetry p run s = (Inr kvs, s1)"
      and rf: "runBatchWithFallback p run (embedChunksInBatches e chunks) s =
          (Inr (FromRun kvs), resetBatchFailureCount s1)" by blast
    from res rf obtain tc where rec: "foldl (reconcileStep ?mapping) (em, []) kvs = (out, tc)"
      by (auto dest: finishBatch_FromRun)
    from reconcile_keeps [OF mapI rec]
    have len: "length out = length em" and keep: "\<forall>j. j \<notin> fst ` set missing \<longrightarrow> out ! j = em ! j"
      by simp_all
    have served: "out ! i = the (cached (hash (chunks ! i)))"
      if "i < length chunks" "servedFromCache cached (chunks ! i)" for i
    proof -
      from that have "i \<notin> fst ` set missing" unfolding missing_def by (simp only: fst_missing) simp
      with keep have "out ! i = em ! i" by blast
      with that show ?thesis by (simp add: em_def)
    qed
    have ans: "out = map (vectorFor cached f) chunks"
      if ra: "\<forall>t kvs t1. run t = (Inr kvs, t1) \<longrightarrow>
            answersRequests f (map (\<lambda>ic. (customId e src entry ic, text' (snd ic))) missing) kvs"
        and di: "distinct (map (customId e src entry) missing)"
    proof -
      from runBatchWithTimeoutRetry_Inr [OF rr] ra
      have ar: "answersRequests f (map (\<lambda>ic. (customId e src entry ic, text' (snd ic))) missing) kvs"
        by blast
      from di have inj: "inj_on (customId e src entry) (set missing)" by (simp add: distinct_map)
      have items: "fst ic < length chunks \<and> snd ic = chunks ! fst ic" if "ic \<in> set missing" for ic
      proof -
        from that have "(fst ic, snd ic) \<in> set missing" by simp
        then show ?thesis
          unfolding missing_def using in_missing [of "fst ic" "snd ic" cached chunks] by blast
      qed
      have wr: "\<forall>kv \<in> set kvs. \<forall>i h. ?mapping (fst kv) = Some (i, h) \<longrightarrow> i < length em \<and> snd kv = ?g i"
      proof (intro ballI allI impI)
        fix kv i h assume kv: "kv \<in> set kvs" and m: "?mapping (fst kv) = Some (i, h)"
        from buildMapping_Some [OF m] obtain item where item: "item \<in> set missing"
          "fst kv = customId e src entry item" "i = fst item" by auto
        from ar kv obtain item' where item': "item' \<in> set missing"
          "fst kv = customId e src entry item'" "snd kv = f (text' (snd item'))"
          by (auto simp: answersRequests_def)
        from inj item item' have "item' = item" by (auto dest: inj_onD)
        with item' items [OF item(1)] item(3) lem
        show "i < length em \<and> snd kv = ?g i" by simp
      qed
      show ?thesis
      proof (rule nth_equalityI)
        show "length out = length (map (vectorFor cached f) chunks)" using len lem by simp
      next
        fix j assume "j < length out"
        with len have j: "j < length em" by simp
        from reconcile_nth [OF wr j rec]
        have oj: "out ! j = (if \<exists>kv \<in> set kvs. \<exists>h. ?mapping (fst kv) = Some (j, h) then ?g j else em ! j)"
          by simp
        show "out ! j = map (vectorFor cached f) chunks ! j"
        proof (cases "servedFromCache cached (chunks ! j)")
          case True
          with j lem have "j \<notin> fst ` set missing" unfolding missing_def by (simp only: fst_missing) simp
          with mapI have "\<not> (\<exists>kv \<in> set kvs. \<exists>h. ?mapping (fst kv) = Some (j, h))" by blast
          with oj have "out ! j = em ! j" by simp
          with True j lem show ?thesis by (simp add: em_def vectorFor_def)
        next
          case False
          with j lem have "(j, chunks ! j) \<in> set missing"
            unfolding missing_def by (simp only: in_missing) simp
          then have im: "(j, chunks ! j) \<in> set missing" .
          from ar im have "(customId e src entry (j, chunks ! j), f (text' (chunks ! j))) \<in> set kvs"
            by (force simp: answersRequests_def)
          moreover from buildMapping_distinct [OF di im]
          have "?mapping (customId e src entry (j, chunks ! j)) = Some (j, hash (chunks ! j))" by simp
          ultimately have "\<exists>kv \<in> set kvs. \<exists>h. ?mapping (fst kv) = Some (j, h)" by force
          with oj have "out ! j = ?g j" by simp
          with False j lem show ?thesis by (simp add: vectorFor_def)
        qed
      qed
    qed
    from len lem served ans show ?thesis by simp
  next
    assume "\<exists>t. sameCache s t \<and>
        runBatchWithFallback p run (embedChunksInBatches e chunks) s =
          (map_sum id FromFallback (fst (embedChunksInBatches e chunks t)),
           snd (embedChunksInBatches e chunks t))"
    then obtain t where t: "sameCache s t"
      and rf: "runBatchWithFallback p run (embedChunksInBatches e chunks) s =
          (map_sum id FromFallback (fst (embedChunksInBatches e chunks t)),
           snd (embedChunksInBatches e chunks t))" by blast
    from res rf have "fst (embedChunksInBatches e chunks t) = Inr out \<and>
        snd (embedChunksInBatches e chunks t) = s'"
      by (auto dest: finishBatch_FromFallback)
    then have inl: "embedChunksInBatches e chunks t = (Inr out, s')"
      by (metis prod.collapse)
    have c: "loadEmbeddingCache t (map hash chunks) = cached"
      unfolding cached_def using t by (rule loadEmbeddingCache_sameCache)
    from embedChunksInBatches_Inr(1) [OF inl] embedChunksInBatches_Inr(2) [OF inl]
      embedChunksInBatches_Inr(3) [OF inl, of f]
    show ?thesis unfolding c by blast
  qed
  from goal show "length out = length chunks" by blast
  from goal show "\<forall>i < length chunks. servedFromCache cached (chunks ! i) \<longrightarrow>
      out ! i = the (cached (hash (chunks ! i)))" by blast
  from goal show "providerAnswers e f \<Longrightarrow>
         (\<forall>t kvs t1. run t = (Inr kvs, t1) \<longrightarrow>
            answersRequests f (map (\<lambda>ic. (customId e src entry ic, text' (snd ic))) missing) kvs) \<Longrightarrow>
         distinct (map (customId e src entry) missing) \<Longrightarrow>
         out = map (vectorFor cached f) chunks" by blast
qed


subsection \<open>The result of a file\<close>

lemma embedChunksWithOpenAiBatch_unfold:
  "openAi s = Some clientModel \<Longrightarrow>
   embedChunksWithOpenAiBatch e chunks entry src s =
     (let cached = loadEmbeddingCache s (map hash chunks);
          em = map (\<lambda>c. if servedFromCache cached c then the (cached (hash c)) else []) chunks;
          missing = filter (\<lambda>ic. \<not> servedFromCache cached (snd ic)) (zip [0..<length chunks] chunks)
      in if missing = [] then (Inr em, s)
         else finishBatch (buildMapping e src entry missing) em
                (runBatchWithFallback ''openai''
                   (runOpenAi e (map (\<lambda>item.
                       \<lparr>custom_id = customId e src entry item, http_method = ''POST'',
                        body_model = clientModel, body_input = text' (snd item)\<rparr>) missing))
                   (embedChunksInBatches e chunks) s))"
  by (cases "chunks = []") (simp_all add: embedChunksWithOpenAiBatch_def splitCached_eq Let_def)

lemma embedChunksWithGeminiBatch_unfold:
  "gemini s = Some client \<Longrightarrow>
   embedChunksWithGeminiBatch e chunks entry src s =
     (let cached = loadEmbeddingCache s (map hash chunks);
          em = map (\<lambda>c. if servedFromCache cached c then the (cached (hash c)) else []) chunks;
          missing = filter (\<lambda>ic. \<not> servedFromCache cached (snd ic)) (zip [0..<length chunks] chunks)
      in if missing = [] then (Inr em, s)
         else finishBatch (buildMapping e src entry missing) em
                (runBatchWithFallback ''gemini''
                   (runGemini e (map (\<lambda>item.
                       \<lparr>g_custom_id = customId e src entry item, content_text = text' (snd item),
                        taskType = ''RETRIEVAL_DOCUMENT''\<rparr>) missing))
                   (embedChunksInBatches e chunks) s))"
  by (cases "chunks = []") (simp_all add: embedChunksWithGeminiBatch_def splitCached_eq Let_def)

lemma runOpenAi_keeps:
  "\<forall>s. sameCache s (snd (runOpenAi e reqs s)) \<and> batch_enabled (snd (runOpenAi e reqs s)) = batch_enabled s"
  by (simp add: runOpenAi_def sameCache_def)

lemma runGemini_keeps:
  "\<forall>s. sameCache s (snd (runGemini e reqs s)) \<and> batch_enabled (snd (runGemini e reqs s)) = batch_enabled s"
  by (simp add: runGemini_def sameCache_def)

text \<open>All chunks served: the cached vectors are the result.\<close>

lemma all_served:
  "filter (\<lambda>ic. \<not> servedFromCache cached (snd ic)) (zip [0..<length chunks] chunks) = [] \<Longrightarrow>
   map (\<lambda>c. if servedFromCache cached c then the (cached (hash c)) else []) chunks =
     map (vectorFor cached f) chunks \<and>
   (\<forall>c \<in> set chunks. servedFromCache cached c)"
proof -
  assume e: "filter (\<lambda>ic. \<not> servedFromCache cached (snd ic)) (zip [0..<length chunks] chunks) = []"
  have a: "\<forall>c \<in> set chunks. servedFromCache cached c"
  proof
    fix c assume "c \<in> set chunks"
    then obtain i where i: "i < length chunks" "c = chunks ! i" by (metis in_set_conv_nth)
    show "servedFromCache cached c"
    proof (rule ccontr)
      assume "\<not> servedFromCache cached c"
      with i in_missing [of i c cached chunks]
      have "(i, c) \<in> set (filter (\<lambda>ic. \<not> servedFromCache cached (snd ic)) (zip [0..<length chunks] chunks))"
        by blast
      with e show False by simp
    qed
  qed
  then show ?thesis by (simp add: vectorFor_def)
qed

lemma distinct_missing:
  "distinct (map g (zip [0..<length chunks] chunks)) \<Longrightarrow>
   distinct (map g (filter P (zip [0..<length chunks] chunks)))"
  by (rule distinct_map_filter)



subsection \<open>Length and order of the result\<close>

lemma goodEnv_provider: "providerAnswers goodEnv sampleEmbed"
  by (auto simp: providerAnswers_def goodEnv_def)

lemma goodEnv_runners: "runnersAnswer goodEnv sampleEmbed"
  by (auto simp: runnersAnswer_def answersRequests_def goodEnv_def)

lemma sample_ids:
  "distinct (map (customId goodEnv Memory sampleEntry) (zip [0..<length [smallChunk, otherChunk]] [smallChunk, otherChunk]))"
  by (simp add: customId_def goodEnv_def sourceName_def sampleEntry_def smallChunk_def otherChunk_def
      show_nat.simps digit_char_def upt_rec)

lemma warm_cached:
  "loadEmbeddingCache warmService (map hash [smallChunk, otherChunk]) = [''h1'' \<mapsto> [7]]"
  by (rule ext)
     (simp add: loadEmbeddingCache_eq cachedVector_def warmService_def sampleService_def
        sampleRow_def smallChunk_def otherChunk_def)



lemma warm_batch:
  "embedChunksForFile goodEnv [smallChunk, otherChunk] sampleEntry Memory warmService =
     (Inr [[7], [3]],
      warmService\<lparr>openAiBatch_calls := 1,
        db := [sampleRow ''h1'' [7] 30, sampleRow ''h9'' [3] 1000]\<rparr>)"
proof -
  have sv: "servedFromCache [''h1'' \<mapsto> [7]] smallChunk" "\<not> servedFromCache [''h1'' \<mapsto> [7]] otherChunk"
    by (simp_all add: servedFromCache_def smallChunk_def otherChunk_def)
  have o: "openAi warmService = Some ''m1''" "batch_enabled warmService"
    "provider_id warmService = ''openai''"
    by (simp_all add: warmService_def sampleService_def)
  have cid: "customId goodEnv Memory sampleEntry (Suc 0, otherChunk) = ''memory:memory/notes.md:3:4:h9:1''"
    by (simp add: customId_def goodEnv_def sourceName_def sampleEntry_def otherChunk_def
        show_nat.simps digit_char_def)
  have run: "runOpenAi goodEnv
       [\<lparr>custom_id = ''memory:memory/notes.md:3:4:h9:1'', http_method = ''POST'', body_model = ''m1'',
         body_input = text' otherChunk\<rparr>] t =
     (Inr [(''memory:memory/notes.md:3:4:h9:1'', [3])], t\<lparr>openAiBatch_calls := openAiBatch_calls t + 1\<rparr>)" for t
    by (simp add: runOpenAi_def goodEnv_def sampleEmbed_def otherChunk_def)
  have e1: "embedChunksForFile goodEnv [smallChunk, otherChunk] sampleEntry Memory warmService =
      embedChunksWithOpenAiBatch goodEnv [smallChunk, otherChunk] sampleEntry Memory warmService"
    using o by (simp add: embedChunksForFile_def embedChunksWithBatch_def)
  show ?thesis
    unfolding e1 embedChunksWithOpenAiBatch_unfold [OF o(1)] warm_cached
    apply (simp add: sv Let_def upt_rec cid run o buildMapping_def runBatchWithFallback_def
        runBatchWithTimeoutRetry_def finishBatch_def reconcileStep_def)
    apply (simp add: resetBatchFailureCount_def upsertEmbeddingCache_def upsertRow_def entryRow_def
        sameKey_def warmService_def sampleService_def sampleRow_def otherChunk_def smallChunk_def)
    done
qed





subsection \<open>A call on one chunk\<close>

lemma buildEmbeddingBatches_single: "buildEmbeddingBatches [c] = [[c]]"
  by (simp add: buildEmbeddingBatches_def buildStep_def Let_def)

lemma single_hit:
  "servedFromCache (loadEmbeddingCache s [hash c]) c \<Longrightarrow>
   embedChunksInBatches e [c] s = (Inr [the (loadEmbeddingCache s [hash c] (hash c))], s)"
  by (simp add: embedChunksInBatches_unfold Let_def)

lemma single_miss:
  assumes "\<not> servedFromCache (loadEmbeddingCache s [hash c]) c"
  shows "embedChunksInBatches e [c] s =
     (case embedBatchWithRetry e [text' c] s of
        (Inl err, s1) \<Rightarrow> (Inl err, s1)
      | (Inr vs, s1) \<Rightarrow>
          (Inr [if 0 < length vs then vs ! 0 else []],
           upsertEmbeddingCache [(hash c, if 0 < length vs then vs ! 0 else [])] s1))"
proof -
  obtain r s1 where r: "embedBatchWithRetry e [text' c] s = (r, s1)"
    by (cases "embedBatchWithRetry e [text' c] s") auto
  show ?thesis
  proof (cases r)
    case (Inl err)
    with assms r show ?thesis
      by (simp add: embedChunksInBatches_unfold Let_def buildEmbeddingBatches_single)
  next
    case (Inr vs)
    with assms r show ?thesis
      by (simp add: embedChunksInBatches_unfold Let_def buildEmbeddingBatches_single assignStep_def)
  qed
qed

lemma cachedVector_upsert:
  assumes "cache_enabled s"
  shows "cachedVector (upsertEmbeddingCache [(h, v)] s) h = Some v"
proof -
  let ?new = "entryRow s (clock s) (h, v)"
  let ?P = "\<lambda>r. row_provider r = provider_id s \<and> row_model r = provider_model s \<and>
                 row_provider_key r = providerKey s \<and> row_hash r = h"
  let ?g = "\<lambda>r. if sameKey r ?new
                then r\<lparr>row_embedding := row_embedding ?new, row_dims := row_dims ?new,
                       row_updated_at := row_updated_at ?new\<rparr>
                else r"
  have PK: "?P r \<longleftrightarrow> sameKey r ?new" for r by (auto simp: sameKey_def entryRow_def)
  have Pg: "?P (?g r) \<longleftrightarrow> ?P r" for r by simp
  have up: "upsertEmbeddingCache [(h, v)] s = s\<lparr>db := upsertRow (db s) ?new\<rparr>"
    using assms by (simp add: upsertEmbeddingCache_def Let_def)
  have "filter ?P (upsertRow (db s) ?new) \<noteq> [] \<and>
        row_embedding (last (filter ?P (upsertRow (db s) ?new))) = v"
  proof (cases "\<exists>r \<in> set (db s). sameKey r ?new")
    case True
    then have u: "upsertRow (db s) ?new = map ?g (db s)" by (simp add: upsertRow_def)
    have f: "filter ?P (map ?g (db s)) = map ?g (filter ?P (db s))"
      by (simp only: filter_map comp_def Pg)
    from True have ne: "filter ?P (db s) \<noteq> []" by (auto simp: filter_empty_conv PK)
    then have "last (map ?g (filter ?P (db s))) = ?g (last (filter ?P (db s)))"
      by (rule last_map)
    moreover from ne have "last (filter ?P (db s)) \<in> set (filter ?P (db s))" by (rule last_in_set)
    then have "?P (last (filter ?P (db s)))" by simp
    then have "row_embedding (?g (last (filter ?P (db s)))) = v"
      by (simp only: PK) (simp add: entryRow_def)
    ultimately show ?thesis using ne by (simp only: u f) simp
  next
    case False
    then have u: "upsertRow (db s) ?new = db s @ [?new]" by (simp add: upsertRow_def)
    show ?thesis by (simp only: u) (simp add: entryRow_def)
  qed
  then show ?thesis by (simp add: cachedVector_if up Let_def)
qed

lemma upsert_counters:
  "embedBatch_calls (upsertEmbeddingCache entries s) = embedBatch_calls s \<and>
   cache_enabled (upsertEmbeddingCache entries s) = cache_enabled s"
  using upsertEmbeddingCache_frame [of entries s] by auto

lemma retry_first:
  "provider_embedBatch e (embedBatch_calls s) (t # ts) = Resolved vs \<Longrightarrow>
   embedBatchWithRetry e (t # ts) s = (Inr vs, s\<lparr>embedBatch_calls := embedBatch_calls s + 1\<rparr>)"
  by (simp add: embedBatchWithRetry_def retryLoop.simps withTimeout_def Let_def)


lemma cold_first:
  "embedChunksInBatches goodEnv [smallChunk] sampleService =
     (Inr [[2]], sampleService\<lparr>embedBatch_calls := 1, db := [sampleRow ''h1'' [2] 1000]\<rparr>)"
proof -
  have ns: "\<not> servedFromCache (loadEmbeddingCache sampleService [hash smallChunk]) smallChunk"
    by (simp add: servedFromCache_def loadEmbeddingCache_eq cachedVector_def sampleService_def)
  have p: "provider_embedBatch goodEnv (embedBatch_calls sampleService) [text' smallChunk] =
      Resolved [[2]]"
    by (simp add: goodEnv_def sampleEmbed_def smallChunk_def)
  show ?thesis
    unfolding single_miss [OF ns] retry_first [OF p]
    by (simp add: upsertEmbeddingCache_def upsertRow_def entryRow_def sampleService_def
        sampleRow_def smallChunk_def)
qed


subsection \<open>Calls of the provider and of the batch runners\<close>

lemma retryLoop_calls: "embedBatch_calls s < embedBatch_calls (snd (retryLoop e texts attempt s))"
  using retryLoop_frame [of e texts attempt s] by auto

lemma embedBins_mono:
  "embedBatch_calls s \<le> embedBatch_calls (snd (embedBins e missing batches cursor em tc s))"
  using embedBins_frame [of e missing batches cursor em tc s] by auto

lemma embedBins_calls:
  assumes "batch \<noteq> []"
  shows "embedBatch_calls s <
         embedBatch_calls (snd (embedBins e missing (batch # batches) cursor em tc s))"
proof -
  obtain r s1 where r: "embedBatchWithRetry e (map text' batch) s = (r, s1)"
    by (cases "embedBatchWithRetry e (map text' batch) s") auto
  from assms have "embedBatchWithRetry e (map text' batch) s = retryLoop e (map text' batch) 0 s"
    by (simp add: embedBatchWithRetry_def)
  with r retryLoop_calls [of s e "map text' batch" 0] have lt: "embedBatch_calls s < embedBatch_calls s1"
    by simp
  show ?thesis
  proof (cases r)
    case (Inl err)
    with r lt show ?thesis by simp
  next
    case (Inr vs)
    obtain em1 tc1 where a: "foldl (assignStep missing cursor vs) (em, tc) [0..<length batch] = (em1, tc1)"
      by (cases "foldl (assignStep missing cursor vs) (em, tc) [0..<length batch]") auto
    from embedBins_mono [of s1 e missing batches "cursor + length batch" em1 tc1] lt r Inr a
    show ?thesis by simp
  qed
qed

lemma not_all_served:
  "(\<exists>c \<in> set chunks. \<not> servedFromCache cached c) \<Longrightarrow>
   filter (\<lambda>ic. \<not> servedFromCache cached (snd ic)) (zip [0..<length chunks] chunks) \<noteq> []"
proof -
  assume "\<exists>c \<in> set chunks. \<not> servedFromCache cached c"
  then obtain c where c: "c \<in> set chunks" "\<not> servedFromCache cached c" by blast
  then obtain i where i: "i < length chunks" "c = chunks ! i" by (metis in_set_conv_nth)
  with c in_missing [of i c cached chunks]
  have "(i, c) \<in> set (filter (\<lambda>ic. \<not> servedFromCache cached (snd ic)) (zip [0..<length chunks] chunks))"
    by blast
  then show ?thesis by (metis empty_iff empty_set)
qed

lemma embedChunksInBatches_calls:
  assumes "\<exists>c \<in> set chunks. \<not> servedFromCache (loadEmbeddingCache s (map hash chunks)) c"
  shows "embedBatch_calls s < embedBatch_calls (snd (embedChunksInBatches e chunks s))"
proof -
  let ?cached = "loadEmbeddingCache s (map hash chunks)"
  let ?em = "map (\<lambda>c. if servedFromCache ?cached c then the (?cached (hash c)) else []) chunks"
  let ?missing = "filter (\<lambda>ic. \<not> servedFromCache ?cached (snd ic)) (zip [0..<length chunks] chunks)"
  from assms have ne: "?missing \<noteq> []" by (rule not_all_served)
  let ?bins = "buildEmbeddingBatches (map snd ?missing)"
  from buildEmbeddingBatches_bins [of "map snd ?missing"]
  have cc: "concat ?bins = map snd ?missing" and ok: "\<forall>b \<in> set ?bins. binOk b" by blast+
  from cc ne have "?bins \<noteq> []" by auto
  then obtain b bs where bb: "?bins = b # bs" by (cases ?bins) auto
  with ok have bne: "b \<noteq> []" by (simp add: binOk_def)
  obtain r s1 where eb: "embedBins e ?missing (b # bs) 0 ?em [] s = (r, s1)"
    by (cases "embedBins e ?missing (b # bs) 0 ?em [] s") auto
  from embedBins_calls [OF bne, of s e ?missing bs 0 ?em "[]"] eb
  have lt: "embedBatch_calls s < embedBatch_calls s1" by simp
  have "embedBatch_calls (snd (embedChunksInBatches e chunks s)) = embedBatch_calls s1"
  proof (cases r)
    case (Inl err)
    with ne bb eb show ?thesis by (simp add: embedChunksInBatches_unfold Let_def)
  next
    case (Inr p)
    obtain em1 tc where "p = (em1, tc)" by (cases p) auto
    with Inr ne bb eb upsert_counters [of tc s1] show ?thesis
      by (simp add: embedChunksInBatches_unfold Let_def)
  qed
  with lt show ?thesis by simp
qed

text \<open>
  The calls that a batch method makes to its runner: \<open>calls\<close> reads the counter of the
  runner that \<open>run\<close> calls.
\<close>

lemma batch_calls:
  fixes calls :: "service \<Rightarrow> nat"
  assumes run: "\<forall>s. \<exists>n. snd (run s) = upd (\<lambda>_. n) s \<and> calls s < n"
    and upd: "\<forall>g s. calls (upd g s) = g (calls s) \<and> batch_enabled (upd g s) = batch_enabled s"
    and keep: "\<forall>s. calls (resetBatchFailureCount s) = calls s \<and>
                 (\<forall>p m a fd. calls (snd (recordBatchFailure p m a fd s)) = calls s) \<and>
                 (\<forall>n rows. calls (s\<lparr>embedBatch_calls := n, db := rows\<rparr>) = calls s) \<and>
                 (\<forall>rows. calls (s\<lparr>db := rows\<rparr>) = calls s)"
    and en: "batch_enabled s"
  shows "calls s < calls (snd (finishBatch mapping em
           (runBatchWithFallback p run (embedChunksInBatches e chunks) s)))"
proof -
  have step: "calls t < calls (snd (run t)) \<and> batch_enabled (snd (run t)) = batch_enabled t" for t
  proof -
    from run obtain n where "snd (run t) = upd (\<lambda>_. n) t" "calls t < n" by blast
    with upd show ?thesis by simp
  qed
  obtain r s1 where rr: "runBatchWithTimeoutRetry p run s = (r, s1)"
    by (cases "runBatchWithTimeoutRetry p run s") auto
  have lt: "calls s < calls s1"
  proof -
    obtain r1 t1 where r1: "run s = (r1, t1)" by (cases "run s") auto
    obtain r2 t2 where r2: "run t1 = (r2, t2)" by (cases "run t1") auto
    from step [of s] r1 have a: "calls s < calls t1" by simp
    from step [of t1] r2 have b: "calls t1 < calls t2" by simp
    from rr r1 r2 have "s1 = t1 \<or> s1 = t2"
      by (auto simp: runBatchWithTimeoutRetry_def split: sum.splits if_splits)
    with a b show ?thesis by auto
  qed
  have inl: "calls (snd (embedChunksInBatches e chunks t)) = calls t" for t
  proof -
    from embedChunksInBatches_frame [of e chunks t]
    obtain n rows where "snd (embedChunksInBatches e chunks t) = t\<lparr>embedBatch_calls := n, db := rows\<rparr>"
      by blast
    then have "calls (snd (embedChunksInBatches e chunks t)) =
        calls (t\<lparr>embedBatch_calls := n, db := rows\<rparr>)" by (simp only:)
    also from keep have "\<dots> = calls t" by blast
    finally show ?thesis .
  qed
  have ups: "calls (upsertEmbeddingCache tc t) = calls t" for tc t
  proof -
    from upsertEmbeddingCache_frame [of tc t] obtain rows where
      "upsertEmbeddingCache tc t = t\<lparr>db := rows\<rparr>" by blast
    then have "calls (upsertEmbeddingCache tc t) = calls (t\<lparr>db := rows\<rparr>)" by (simp only:)
    also from keep have "\<dots> = calls t" by blast
    finally show ?thesis .
  qed
  show ?thesis
  proof (cases r)
    case (Inr kvs)
    with en rr have "runBatchWithFallback p run (embedChunksInBatches e chunks) s =
        (Inr (FromRun kvs), resetBatchFailureCount s1)"
      by (simp add: runBatchWithFallback_def)
    then have "calls (snd (finishBatch mapping em
           (runBatchWithFallback p run (embedChunksInBatches e chunks) s))) = calls s1"
      using keep ups by (simp add: finishBatch_def split: prod.splits)
    with lt show ?thesis by simp
  next
    case (Inl err)
    show ?thesis
    proof (cases "getBatchAttempts err")
      case typeError: (Inl typeError)
      with en rr Inl have "runBatchWithFallback p run (embedChunksInBatches e chunks) s =
          (Inl typeError, s1)"
        by (simp add: runBatchWithFallback_def)
      then have "calls (snd (finishBatch mapping em
             (runBatchWithFallback p run (embedChunksInBatches e chunks) s))) = calls s1"
        by (simp add: finishBatch_def)
      with lt show ?thesis by simp
    next
      case attempts: (Inr a)
      let ?t = "snd (recordBatchFailure p (message err)
          (case a of None \<Rightarrow> Some 1 | Some a \<Rightarrow> Some a)
          (isForceDisableError (message err)) s1)"
      from en rr Inl attempts
      have rf: "runBatchWithFallback p run (embedChunksInBatches e chunks) s =
          (map_sum id FromFallback (fst (embedChunksInBatches e chunks ?t)),
           snd (embedChunksInBatches e chunks ?t))"
        by (simp add: runBatchWithFallback_def Let_def split: prod.splits)
      have "snd (finishBatch mapping em (map_sum id FromFallback x, y)) = y" for x y
        by (cases x) (simp_all add: finishBatch_def)
      with rf have "calls (snd (finishBatch mapping em
             (runBatchWithFallback p run (embedChunksInBatches e chunks) s))) =
          calls (snd (embedChunksInBatches e chunks ?t))" by simp
      also have "\<dots> = calls ?t" by (rule inl)
      also have "\<dots> = calls s1" using keep by blast
      finally show ?thesis using lt by simp
    qed
  qed
qed

lemma openAi_batch_calls:
  assumes "batch_enabled s" and "openAi s = Some cm"
    and "\<exists>c \<in> set chunks. \<not> servedFromCache (loadEmbeddingCache s (map hash chunks)) c"
  shows "openAiBatch_calls s < openAiBatch_calls (snd (embedChunksWithOpenAiBatch e chunks entry src s))"
proof -
  have run: "\<forall>s. \<exists>n. snd (runOpenAi e reqs s) = openAiBatch_calls_update (\<lambda>_. n) s \<and>
      openAiBatch_calls s < n" for reqs
    by (auto simp: runOpenAi_def)
  have upd: "\<forall>g s. openAiBatch_calls (openAiBatch_calls_update g s) = g (openAiBatch_calls s) \<and>
      batch_enabled (openAiBatch_calls_update g s) = batch_enabled s" by simp
  have keep: "\<forall>s. openAiBatch_calls (resetBatchFailureCount s) = openAiBatch_calls s \<and>
                 (\<forall>p m a fd. openAiBatch_calls (snd (recordBatchFailure p m a fd s)) = openAiBatch_calls s) \<and>
                 (\<forall>n rows. openAiBatch_calls (s\<lparr>embedBatch_calls := n, db := rows\<rparr>) = openAiBatch_calls s) \<and>
                 (\<forall>rows. openAiBatch_calls (s\<lparr>db := rows\<rparr>) = openAiBatch_calls s)"
    by (simp add: resetBatchFailureCount_def recordBatchFailure_def Let_def)
  from not_all_served [OF assms(3)] assms(2) batch_calls [OF run upd keep assms(1)]
  show ?thesis by (simp add: embedChunksWithOpenAiBatch_unfold Let_def)
qed

lemma gemini_batch_calls:
  assumes "batch_enabled s" and "gemini s = Some cl"
    and "\<exists>c \<in> set chunks. \<not> servedFromCache (loadEmbeddingCache s (map hash chunks)) c"
  shows "geminiBatch_calls s < geminiBatch_calls (snd (embedChunksWithGeminiBatch e chunks entry src s))"
proof -
  have run: "\<forall>s. \<exists>n. snd (runGemini e reqs s) = geminiBatch_calls_update (\<lambda>_. n) s \<and>
      geminiBatch_calls s < n" for reqs
    by (auto simp: runGemini_def)
  have upd: "\<forall>g s. geminiBatch_calls (geminiBatch_calls_update g s) = g (geminiBatch_calls s) \<and>
      batch_enabled (geminiBatch_calls_update g s) = batch_enabled s" by simp
  have keep: "\<forall>s. geminiBatch_calls (resetBatchFailureCount s) = geminiBatch_calls s \<and>
                 (\<forall>p m a fd. geminiBatch_calls (snd (recordBatchFailure p m a fd s)) = geminiBatch_calls s) \<and>
                 (\<forall>n rows. geminiBatch_calls (s\<lparr>embedBatch_calls := n, db := rows\<rparr>) = geminiBatch_calls s) \<and>
                 (\<forall>rows. geminiBatch_calls (s\<lparr>db := rows\<rparr>) = geminiBatch_calls s)"
    by (simp add: resetBatchFailureCount_def recordBatchFailure_def Let_def)
  from not_all_served [OF assms(3)] assms(2) batch_calls [OF run upd keep assms(1)]
  show ?thesis by (simp add: embedChunksWithGeminiBatch_unfold Let_def)
qed


lemma all_served_filter:
  assumes "\<forall>c \<in> set chunks. servedFromCache cached c"
  shows "filter (\<lambda>ic. \<not> servedFromCache cached (snd ic)) (zip [0..<length chunks] chunks) = []"
    and "map (\<lambda>c. if servedFromCache cached c then the (cached (hash c)) else []) chunks =
         map (\<lambda>c. the (cached (hash c))) chunks"
proof -
  have "\<forall>ic \<in> set (zip [0..<length chunks] chunks). servedFromCache cached (snd ic)"
  proof
    fix ic assume "ic \<in> set (zip [0..<length chunks] chunks)"
    then have "snd ic \<in> set chunks" by (metis prod.collapse set_zip_rightD)
    with assms show "servedFromCache cached (snd ic)" by blast
  qed
  then show "filter (\<lambda>ic. \<not> servedFromCache cached (snd ic)) (zip [0..<length chunks] chunks) = []"
    by (simp add: filter_empty_conv)
  from assms show "map (\<lambda>c. if servedFromCache cached c then the (cached (hash c)) else []) chunks =
         map (\<lambda>c. the (cached (hash c))) chunks" by simp
qed

lemma empty_vector_not_served:
  assumes "cache_enabled s" and "h \<noteq> []"
  shows "cachedVector (upsertEmbeddingCache [(h, [])] s) h = Some [] \<and>
         (hash c = h \<longrightarrow>
            \<not> servedFromCache (loadEmbeddingCache (upsertEmbeddingCache [(h, [])] s) hashes) c)"
proof -
  have cv: "cachedVector (upsertEmbeddingCache [(h, [])] s) h = Some []"
    using assms(1) by (rule cachedVector_upsert)
  have "\<not> servedFromCache (loadEmbeddingCache (upsertEmbeddingCache [(h, [])] s) hashes) c"
    if "hash c = h"
    using that cv by (simp add: servedFromCache_def loadEmbeddingCache_eq)
  with cv show ?thesis by blast
qed


subsection \<open>Errors of a batch submission\<close>



subsection \<open>When a chunk is served from the cache\<close>

text \<open>What a successful call of a batch method returns.\<close>

lemma openAiBatch_Inr:
  fixes chunks :: "chunk list" and s :: service
  defines "cached \<equiv> loadEmbeddingCache s (map hash chunks)"
  assumes res: "embedChunksWithOpenAiBatch e chunks entry src s = (Inr out, s')"
    and pa: "providerAnswers e f" and ra: "runnersAnswer e f"
    and di: "distinct (map (customId e src entry) (zip [0..<length chunks] chunks))"
  shows "out = map (vectorFor cached f) chunks"
proof (cases "openAi s")
  case None
  with res have "embedChunksInBatches e chunks s = (Inr out, s')"
    by (simp add: embedChunksWithOpenAiBatch_def)
  from embedChunksInBatches_Inr(3) [OF this pa] show ?thesis unfolding cached_def .
next
  case (Some cm)
  let ?em = "map (\<lambda>c. if servedFromCache cached c then the (cached (hash c)) else []) chunks"
  let ?missing = "filter (\<lambda>ic. \<not> servedFromCache cached (snd ic)) (zip [0..<length chunks] chunks)"
  let ?reqs = "map (\<lambda>item. \<lparr>custom_id = customId e src entry item, http_method = ''POST'',
                    body_model = cm, body_input = text' (snd item)\<rparr>) ?missing"
  show ?thesis
  proof (cases "?missing = []")
    case True
    from True Some have "embedChunksWithOpenAiBatch e chunks entry src s = (Inr ?em, s)"
      unfolding cached_def by (simp add: embedChunksWithOpenAiBatch_unfold Let_def)
    then have "fst (embedChunksWithOpenAiBatch e chunks entry src s) = Inr ?em" by (simp only: fst_conv)
    moreover from res have "fst (embedChunksWithOpenAiBatch e chunks entry src s) = Inr out"
      by (simp only: fst_conv)
    ultimately have "(Inr out :: js_error + vector list) = Inr ?em" by (simp only:)
    then have "out = ?em" by (simp only: sum.inject)
    with all_served [OF True, of f] show ?thesis by (simp only:)
  next
    case False
    from False Some have "embedChunksWithOpenAiBatch e chunks entry src s =
        finishBatch (buildMapping e src entry ?missing) ?em
          (runBatchWithFallback ''openai'' (runOpenAi e ?reqs) (embedChunksInBatches e chunks) s)"
      unfolding cached_def by (simp add: embedChunksWithOpenAiBatch_unfold Let_def)
    with res have fb: "finishBatch (buildMapping e src entry ?missing) ?em
        (runBatchWithFallback ''openai'' (runOpenAi e ?reqs) (embedChunksInBatches e chunks) s) =
        (Inr out, s')"
      by (simp only:)
    note b = batch_Inr [where run = "runOpenAi e ?reqs" and e = e and src = src and entry = entry
        and chunks = chunks and s = s and p = "''openai''" and out = out and s' = s',
        OF runOpenAi_keeps, folded cached_def, OF fb]
    have rq: "map (\<lambda>r. (custom_id r, body_input r)) ?reqs =
        map (\<lambda>ic. (customId e src entry ic, text' (snd ic))) ?missing"
      by (simp add: comp_def)
    have "\<forall>t kvs t1. runOpenAi e ?reqs t = (Inr kvs, t1) \<longrightarrow>
        answersRequests f (map (\<lambda>ic. (customId e src entry ic, text' (snd ic))) ?missing) kvs"
    proof (intro allI impI)
      fix t kvs t1 assume "runOpenAi e ?reqs t = (Inr kvs, t1)"
      then have "runOpenAiEmbeddingBatches e (openAiBatch_calls t) ?reqs = Inr kvs"
        by (simp add: runOpenAi_def)
      with ra have "answersRequests f (map (\<lambda>r. (custom_id r, body_input r)) ?reqs) kvs"
        unfolding runnersAnswer_def by blast
      then show "answersRequests f (map (\<lambda>ic. (customId e src entry ic, text' (snd ic))) ?missing) kvs"
        by (simp only: rq)
    qed
    from b(3) [OF pa this distinct_missing [OF di]] show ?thesis .
  qed
qed

lemma geminiBatch_Inr:
  fixes chunks :: "chunk list" and s :: service
  defines "cached \<equiv> loadEmbeddingCache s (map hash chunks)"
  assumes res: "embedChunksWithGeminiBatch e chunks entry src s = (Inr out, s')"
    and pa: "providerAnswers e f" and ra: "runnersAnswer e f"
    and di: "distinct (map (customId e src entry) (zip [0..<length chunks] chunks))"
  shows "out = map (vectorFor cached f) chunks"
proof (cases "gemini s")
  case None
  with res have "embedChunksInBatches e chunks s = (Inr out, s')"
    by (simp add: embedChunksWithGeminiBatch_def)
  from embedChunksInBatches_Inr(3) [OF this pa] show ?thesis unfolding cached_def .
next
  case (Some cl)
  let ?em = "map (\<lambda>c. if servedFromCache cached c then the (cached (hash c)) else []) chunks"
  let ?missing = "filter (\<lambda>ic. \<not> servedFromCache cached (snd ic)) (zip [0..<length chunks] chunks)"
  let ?reqs = "map (\<lambda>item. \<lparr>g_custom_id = customId e src entry item,
        content_text = text' (snd item), taskType = ''RETRIEVAL_DOCUMENT''\<rparr>) ?missing"
  show ?thesis
  proof (cases "?missing = []")
    case True
    from True Some have "embedChunksWithGeminiBatch e chunks entry src s = (Inr ?em, s)"
      unfolding cached_def by (simp add: embedChunksWithGeminiBatch_unfold Let_def)
    then have "fst (embedChunksWithGeminiBatch e chunks entry src s) = Inr ?em" by (simp only: fst_conv)
    moreover from res have "fst (embedChunksWithGeminiBatch e chunks entry src s) = Inr out"
      by (simp only: fst_conv)
    ultimately have "(Inr out :: js_error + vector list) = Inr ?em" by (simp only:)
    then have "out = ?em" by (simp only: sum.inject)
    with all_served [OF True, of f] show ?thesis by (simp only:)
  next
    case False
    from False Some have "embedChunksWithGeminiBatch e chunks entry src s =
        finishBatch (buildMapping e src entry ?missing) ?em
          (runBatchWithFallback ''gemini'' (runGemini e ?reqs) (embedChunksInBatches e chunks) s)"
      unfolding cached_def by (simp add: embedChunksWithGeminiBatch_unfold Let_def)
    with res have fb: "finishBatch (buildMapping e src entry ?missing) ?em
        (runBatchWithFallback ''gemini'' (runGemini e ?reqs) (embedChunksInBatches e chunks) s) =
        (Inr out, s')"
      by (simp only:)
    note b = batch_Inr [where run = "runGemini e ?reqs" and e = e and src = src and entry = entry
        and chunks = chunks and s = s and p = "''gemini''" and out = out and s' = s',
        OF runGemini_keeps, folded cached_def, OF fb]
    have rq: "map (\<lambda>r. (g_custom_id r, content_text r)) ?reqs =
        map (\<lambda>ic. (customId e src entry ic, text' (snd ic))) ?missing"
      by (simp add: comp_def)
    have "\<forall>t kvs t1. runGemini e ?reqs t = (Inr kvs, t1) \<longrightarrow>
        answersRequests f (map (\<lambda>ic. (customId e src entry ic, text' (snd ic))) ?missing) kvs"
    proof (intro allI impI)
      fix t kvs t1 assume "runGemini e ?reqs t = (Inr kvs, t1)"
      then have "runGeminiEmbeddingBatches e (geminiBatch_calls t) ?reqs = Inr kvs"
        by (simp add: runGemini_def)
      with ra have "answersRequests f (map (\<lambda>r. (g_custom_id r, content_text r)) ?reqs) kvs"
        unfolding runnersAnswer_def by blast
      then show "answersRequests f (map (\<lambda>ic. (customId e src entry ic, text' (snd ic))) ?missing) kvs"
        by (simp only: rq)
    qed
    from b(3) [OF pa this distinct_missing [OF di]] show ?thesis .
  qed
qed

lemma vectorFor_slots:
  "out = map (vectorFor cached f) chunks \<Longrightarrow>
   length out = length chunks \<and>
   (\<forall>i < length chunks.
      out ! i = (if servedFromCache cached (chunks ! i) then the (cached (hash (chunks ! i)))
                 else f (text' (chunks ! i))))"
  by (simp add: vectorFor_def)


text \<open>A path returns when its collaborator resolves.\<close>

lemma retry_total:
  assumes "\<forall>n ts. \<exists>vs. provider_embedBatch e n ts = Resolved vs"
  shows "\<exists>vs t. embedBatchWithRetry e texts s = (Inr vs, t)"
proof (cases "texts = []")
  case True
  then show ?thesis by (simp add: embedBatchWithRetry_def)
next
  case False
  from assms obtain vs where "provider_embedBatch e (embedBatch_calls s) texts = Resolved vs" by blast
  with False show ?thesis
    by (simp add: embedBatchWithRetry_def retryLoop.simps withTimeout_def Let_def)
qed

lemma embedBins_total:
  assumes "\<forall>n ts. \<exists>vs. provider_embedBatch e n ts = Resolved vs"
  shows "\<exists>r t. embedBins e missing batches cursor em tc s = (Inr r, t)"
proof (induction batches arbitrary: cursor em tc s)
  case Nil
  show ?case by simp
next
  case (Cons batch batches)
  from retry_total [OF assms, of "map text' batch" s]
  obtain vs t where r: "embedBatchWithRetry e (map text' batch) s = (Inr vs, t)" by blast
  obtain em1 tc1 where a: "foldl (assignStep missing cursor vs) (em, tc) [0..<length batch] = (em1, tc1)"
    by (cases "foldl (assignStep missing cursor vs) (em, tc) [0..<length batch]") auto
  from Cons [of "cursor + length batch" em1 tc1 t] r a show ?case by simp
qed

lemma inline_total:
  assumes "\<forall>n ts. \<exists>vs. provider_embedBatch e n ts = Resolved vs"
  shows "\<exists>out t. embedChunksInBatches e chunks s = (Inr out, t)"
proof -
  let ?cached = "loadEmbeddingCache s (map hash chunks)"
  let ?em = "map (\<lambda>c. if servedFromCache ?cached c then the (?cached (hash c)) else []) chunks"
  let ?missing = "filter (\<lambda>ic. \<not> servedFromCache ?cached (snd ic)) (zip [0..<length chunks] chunks)"
  from embedBins_total [OF assms, of ?missing "buildEmbeddingBatches (map snd ?missing)" 0 ?em "[]" s]
  obtain r t where "embedBins e ?missing (buildEmbeddingBatches (map snd ?missing)) 0 ?em [] s = (Inr r, t)"
    by blast
  then show ?thesis
    by (cases r) (simp add: embedChunksInBatches_unfold Let_def)
qed

lemma batch_total:
  assumes "batch_enabled s" and "run s = (Inr kvs, t)"
  shows "\<exists>out u. finishBatch mapping em (runBatchWithFallback p run fallback s) = (Inr out, u)"
proof -
  from assms have "runBatchWithFallback p run fallback s = (Inr (FromRun kvs), resetBatchFailureCount t)"
    by (simp add: runBatchWithFallback_def runBatchWithTimeoutRetry_def)
  then show ?thesis by (simp add: finishBatch_def split: prod.splits)
qed

lemma openAi_total:
  assumes "batch_enabled s" and "openAi s = Some cm"
    and "runOpenAiEmbeddingBatches e (openAiBatch_calls s)
           (map (\<lambda>item. \<lparr>custom_id = customId e src entry item, http_method = ''POST'',
                          body_model = cm, body_input = text' (snd item)\<rparr>)
              (filter (\<lambda>ic. \<not> servedFromCache (loadEmbeddingCache s (map hash chunks)) (snd ic))
                 (zip [0..<length chunks] chunks))) = Inr kvs"
  shows "\<exists>out t. embedChunksWithOpenAiBatch e chunks entry src s = (Inr out, t)"
proof -
  let ?reqs = "map (\<lambda>item. \<lparr>custom_id = customId e src entry item, http_method = ''POST'',
                          body_model = cm, body_input = text' (snd item)\<rparr>)
              (filter (\<lambda>ic. \<not> servedFromCache (loadEmbeddingCache s (map hash chunks)) (snd ic))
                 (zip [0..<length chunks] chunks))"
  from assms(3) have "runOpenAi e ?reqs s = (Inr kvs, s\<lparr>openAiBatch_calls := openAiBatch_calls s + 1\<rparr>)"
    by (simp add: runOpenAi_def)
  from batch_total [where run = "runOpenAi e ?reqs", OF assms(1) this] show ?thesis
    by (simp add: embedChunksWithOpenAiBatch_unfold [OF assms(2)] Let_def)
qed

lemma gemini_total:
  assumes "batch_enabled s" and "gemini s = Some cl"
    and "runGeminiEmbeddingBatches e (geminiBatch_calls s)
           (map (\<lambda>item. \<lparr>g_custom_id = customId e src entry item, content_text = text' (snd item),
                          taskType = ''RETRIEVAL_DOCUMENT''\<rparr>)
              (filter (\<lambda>ic. \<not> servedFromCache (loadEmbeddingCache s (map hash chunks)) (snd ic))
                 (zip [0..<length chunks] chunks))) = Inr kvs"
  shows "\<exists>out t. embedChunksWithGeminiBatch e chunks entry src s = (Inr out, t)"
proof -
  let ?reqs = "map (\<lambda>item. \<lparr>g_custom_id = customId e src entry item, content_text = text' (snd item),
                          taskType = ''RETRIEVAL_DOCUMENT''\<rparr>)
              (filter (\<lambda>ic. \<not> servedFromCache (loadEmbeddingCache s (map hash chunks)) (snd ic))
                 (zip [0..<length chunks] chunks))"
  from assms(3) have "runGemini e ?reqs s = (Inr kvs, s\<lparr>geminiBatch_calls := geminiBatch_calls s + 1\<rparr>)"
    by (simp add: runGemini_def)
  from batch_total [where run = "runGemini e ?reqs", OF assms(1) this] show ?thesis
    by (simp add: embedChunksWithGeminiBatch_unfold [OF assms(2)] Let_def)
qed



lemma warm_openAi:
  "embedChunksWithOpenAiBatch goodEnv [smallChunk, otherChunk] sampleEntry Memory warmService =
     (Inr [[7], [3]],
      warmService\<lparr>openAiBatch_calls := 1,
        db := [sampleRow ''h1'' [7] 30, sampleRow ''h9'' [3] 1000]\<rparr>)"
proof -
  have "embedChunksForFile goodEnv [smallChunk, otherChunk] sampleEntry Memory warmService =
      embedChunksWithOpenAiBatch goodEnv [smallChunk, otherChunk] sampleEntry Memory warmService"
    by (simp add: embedChunksForFile_def embedChunksWithBatch_def warmService_def sampleService_def)
  with warm_batch show ?thesis by (simp only:)
qed

lemma warm_gemini:
  "embedChunksWithGeminiBatch goodEnv [smallChunk, otherChunk] sampleEntry Memory geminiService =
     (Inr [[7], [3]],
      geminiService\<lparr>geminiBatch_calls := 1,
        db := [sampleRow ''h1'' [7] 30, sampleRow ''h9'' [3] 1000]\<rparr>)"
proof -
  have sv: "servedFromCache [''h1'' \<mapsto> [7]] smallChunk" "\<not> servedFromCache [''h1'' \<mapsto> [7]] otherChunk"
    by (simp_all add: servedFromCache_def smallChunk_def otherChunk_def)
  have o: "gemini geminiService = Some ''g1''" "batch_enabled geminiService"
    by (simp_all add: geminiService_def warmService_def sampleService_def)
  have c: "loadEmbeddingCache geminiService (map hash [smallChunk, otherChunk]) = [''h1'' \<mapsto> [7]]"
    using warm_cached loadEmbeddingCache_sameCache [of warmService geminiService]
    by (simp add: sameCache_def geminiService_def)
  have cid: "customId goodEnv Memory sampleEntry (Suc 0, otherChunk) = ''memory:memory/notes.md:3:4:h9:1''"
    by (simp add: customId_def goodEnv_def sourceName_def sampleEntry_def otherChunk_def
        show_nat.simps digit_char_def)
  have run: "runGemini goodEnv
       [\<lparr>g_custom_id = ''memory:memory/notes.md:3:4:h9:1'', content_text = text' otherChunk,
         taskType = ''RETRIEVAL_DOCUMENT''\<rparr>] t =
     (Inr [(''memory:memory/notes.md:3:4:h9:1'', [3])], t\<lparr>geminiBatch_calls := geminiBatch_calls t + 1\<rparr>)" for t
    by (simp add: runGemini_def goodEnv_def sampleEmbed_def otherChunk_def)
  show ?thesis
    unfolding embedChunksWithGeminiBatch_unfold [OF o(1)] c
    apply (simp add: sv Let_def upt_rec cid run o buildMapping_def runBatchWithFallback_def
        runBatchWithTimeoutRetry_def finishBatch_def reconcileStep_def)
    apply (simp add: resetBatchFailureCount_def upsertEmbeddingCache_def upsertRow_def entryRow_def
        sameKey_def geminiService_def warmService_def sampleService_def sampleRow_def otherChunk_def
        smallChunk_def)
    done
qed

text \<open>
  C10. In the inline path and in both batch paths the chunks are sorted by the same
  test: a chunk is served from the cache exactly when its hash is not empty and the
  vector found for it is not empty; every other chunk is put on the list of missing
  chunks with its index. A vector that the provider returned empty is stored by the
  upsert and is a miss all the same. When every chunk is served, a path returns the
  cached vectors and calls nothing; when one is not, the inline path calls the provider
  and a batch path with batch mode on calls its runner. And a missing chunk is embedded
  again: when the provider and the batch runners answer with the vectors of the texts
  they are given (the custom IDs of the file being pairwise different), a path that
  returns holds, in the slot of every chunk not served from the cache, the vector that
  they give for the text of that chunk, and the cached vector in every other slot.
\<close>

theorem cache_hit_needs_hash_and_vector:
  "splitCached cached chunks =
     (map (\<lambda>c. if servedFromCache cached c then the (cached (hash c)) else []) chunks,
      filter (\<lambda>ic. \<not> servedFromCache cached (snd ic)) (zip [0..<length chunks] chunks)) \<and>
   (servedFromCache cached c \<longleftrightarrow> hash c \<noteq> [] \<and> (\<exists>v. cached (hash c) = Some v \<and> v \<noteq> [])) \<and>
   (cache_enabled s \<and> h \<noteq> [] \<longrightarrow>
      cachedVector (upsertEmbeddingCache [(h, [])] s) h = Some [] \<and>
      (hash c = h \<longrightarrow>
         \<not> servedFromCache (loadEmbeddingCache (upsertEmbeddingCache [(h, [])] s) hashes) c)) \<and>
   ((\<forall>c \<in> set chunks. servedFromCache (loadEmbeddingCache s (map hash chunks)) c) \<longrightarrow>
      embedChunksInBatches e chunks s =
        (Inr (map (\<lambda>c. the (loadEmbeddingCache s (map hash chunks) (hash c))) chunks), s) \<and>
      (openAi s \<noteq> None \<longrightarrow>
         embedChunksWithOpenAiBatch e chunks entry src s =
           (Inr (map (\<lambda>c. the (loadEmbeddingCache s (map hash chunks) (hash c))) chunks), s)) \<and>
      (gemini s \<noteq> None \<longrightarrow>
         embedChunksWithGeminiBatch e chunks entry src s =
           (Inr (map (\<lambda>c. the (loadEmbeddingCache s (map hash chunks) (hash c))) chunks), s))) \<and>
   ((\<exists>c \<in> set chunks. \<not> servedFromCache (loadEmbeddingCache s (map hash chunks)) c) \<longrightarrow>
      embedBatch_calls s < embedBatch_calls (snd (embedChunksInBatches e chunks s)) \<and>
      (batch_enabled s \<and> openAi s \<noteq> None \<longrightarrow>
         openAiBatch_calls s <
           openAiBatch_calls (snd (embedChunksWithOpenAiBatch e chunks entry src s))) \<and>
      (batch_enabled s \<and> gemini s \<noteq> None \<longrightarrow>
         geminiBatch_calls s <
           geminiBatch_calls (snd (embedChunksWithGeminiBatch e chunks entry src s)))) \<and>
   (providerAnswers e f \<longrightarrow>
      (embedChunksInBatches e chunks s = (Inr out, s') \<longrightarrow>
         length out = length chunks \<and>
         (\<forall>i < length chunks.
            out ! i =
              (if servedFromCache (loadEmbeddingCache s (map hash chunks)) (chunks ! i)
               then the (loadEmbeddingCache s (map hash chunks) (hash (chunks ! i)))
               else f (text' (chunks ! i))))) \<and>
      (runnersAnswer e f \<and> distinct (map (customId e src entry) (zip [0..<length chunks] chunks)) \<longrightarrow>
         (embedChunksWithOpenAiBatch e chunks entry src s = (Inr out1, s1) \<longrightarrow>
            length out1 = length chunks \<and>
            (\<forall>i < length chunks.
               out1 ! i =
                 (if servedFromCache (loadEmbeddingCache s (map hash chunks)) (chunks ! i)
                  then the (loadEmbeddingCache s (map hash chunks) (hash (chunks ! i)))
                  else f (text' (chunks ! i))))) \<and>
         (embedChunksWithGeminiBatch e chunks entry src s = (Inr out2, s2) \<longrightarrow>
            length out2 = length chunks \<and>
            (\<forall>i < length chunks.
               out2 ! i =
                 (if servedFromCache (loadEmbeddingCache s (map hash chunks)) (chunks ! i)
                  then the (loadEmbeddingCache s (map hash chunks) (hash (chunks ! i)))
                  else f (text' (chunks ! i))))))) \<and>
   ((\<forall>n ts. \<exists>vs. provider_embedBatch e n ts = Resolved vs) \<longrightarrow>
      (\<exists>out t. embedChunksInBatches e chunks s = (Inr out, t))) \<and>
   (batch_enabled s \<and> openAi s = Some cm \<and>
    runOpenAiEmbeddingBatches e (openAiBatch_calls s)
      (map (\<lambda>item. \<lparr>custom_id = customId e src entry item, http_method = ''POST'',
                     body_model = cm, body_input = text' (snd item)\<rparr>)
         (filter (\<lambda>ic. \<not> servedFromCache (loadEmbeddingCache s (map hash chunks)) (snd ic))
            (zip [0..<length chunks] chunks))) = Inr kvs \<longrightarrow>
      (\<exists>out t. embedChunksWithOpenAiBatch e chunks entry src s = (Inr out, t))) \<and>
   (batch_enabled s \<and> gemini s = Some cl \<and>
    runGeminiEmbeddingBatches e (geminiBatch_calls s)
      (map (\<lambda>item. \<lparr>g_custom_id = customId e src entry item, content_text = text' (snd item),
                     taskType = ''RETRIEVAL_DOCUMENT''\<rparr>)
         (filter (\<lambda>ic. \<not> servedFromCache (loadEmbeddingCache s (map hash chunks)) (snd ic))
            (zip [0..<length chunks] chunks))) = Inr kvs2 \<longrightarrow>
      (\<exists>out t. embedChunksWithGeminiBatch e chunks entry src s = (Inr out, t)))"
proof (intro conjI impI)
  show "splitCached cached chunks =
     (map (\<lambda>c. if servedFromCache cached c then the (cached (hash c)) else []) chunks,
      filter (\<lambda>ic. \<not> servedFromCache cached (snd ic)) (zip [0..<length chunks] chunks))"
    by (rule splitCached_eq)
  show "servedFromCache cached c \<longleftrightarrow> hash c \<noteq> [] \<and> (\<exists>v. cached (hash c) = Some v \<and> v \<noteq> [])"
    by (auto simp: servedFromCache_def split: option.splits)
next
  assume "cache_enabled s \<and> h \<noteq> []"
  then have a: "cache_enabled s" "h \<noteq> []" by simp_all
  from empty_vector_not_served [OF a, of c hashes]
  show "cachedVector (upsertEmbeddingCache [(h, [])] s) h = Some []" by blast
  show "\<not> servedFromCache (loadEmbeddingCache (upsertEmbeddingCache [(h, [])] s) hashes) c"
    if "hash c = h" using empty_vector_not_served [OF a, of c hashes] that by blast
next
  assume all: "\<forall>c \<in> set chunks. servedFromCache (loadEmbeddingCache s (map hash chunks)) c"
  note f = all_served_filter [OF all]
  show "embedChunksInBatches e chunks s =
        (Inr (map (\<lambda>c. the (loadEmbeddingCache s (map hash chunks) (hash c))) chunks), s)"
    by (simp only: embedChunksInBatches_unfold Let_def f simp_thms if_True)
  show "embedChunksWithOpenAiBatch e chunks entry src s =
           (Inr (map (\<lambda>c. the (loadEmbeddingCache s (map hash chunks) (hash c))) chunks), s)"
    if "openAi s \<noteq> None"
  proof -
    from that obtain cm where cm: "openAi s = Some cm" by auto
    show ?thesis by (simp only: embedChunksWithOpenAiBatch_unfold [OF cm] Let_def f simp_thms if_True)
  qed
  show "embedChunksWithGeminiBatch e chunks entry src s =
           (Inr (map (\<lambda>c. the (loadEmbeddingCache s (map hash chunks) (hash c))) chunks), s)"
    if "gemini s \<noteq> None"
  proof -
    from that obtain cl where cl: "gemini s = Some cl" by auto
    show ?thesis by (simp only: embedChunksWithGeminiBatch_unfold [OF cl] Let_def f simp_thms if_True)
  qed
next
  assume ex: "\<exists>c \<in> set chunks. \<not> servedFromCache (loadEmbeddingCache s (map hash chunks)) c"
  show "embedBatch_calls s < embedBatch_calls (snd (embedChunksInBatches e chunks s))"
    using ex by (rule embedChunksInBatches_calls)
  show "openAiBatch_calls s < openAiBatch_calls (snd (embedChunksWithOpenAiBatch e chunks entry src s))"
    if "batch_enabled s \<and> openAi s \<noteq> None"
  proof -
    from that obtain cm where "batch_enabled s" "openAi s = Some cm" by auto
    then show ?thesis using ex by (rule openAi_batch_calls)
  qed
  show "geminiBatch_calls s < geminiBatch_calls (snd (embedChunksWithGeminiBatch e chunks entry src s))"
    if "batch_enabled s \<and> gemini s \<noteq> None"
  proof -
    from that obtain cl where "batch_enabled s" "gemini s = Some cl" by auto
    then show ?thesis using ex by (rule gemini_batch_calls)
  qed
next
  assume pa: "providerAnswers e f" and r: "embedChunksInBatches e chunks s = (Inr out, s')"
  from vectorFor_slots [OF embedChunksInBatches_Inr(3) [OF r pa]]
  show "length out = length chunks"
    and "\<forall>i < length chunks.
            out ! i =
              (if servedFromCache (loadEmbeddingCache s (map hash chunks)) (chunks ! i)
               then the (loadEmbeddingCache s (map hash chunks) (hash (chunks ! i)))
               else f (text' (chunks ! i)))"
    by blast+
next
  assume pa: "providerAnswers e f"
    and "runnersAnswer e f \<and> distinct (map (customId e src entry) (zip [0..<length chunks] chunks))"
    and r: "embedChunksWithOpenAiBatch e chunks entry src s = (Inr out1, s1)"
  then have ra: "runnersAnswer e f"
    and di: "distinct (map (customId e src entry) (zip [0..<length chunks] chunks))" by simp_all
  from vectorFor_slots [OF openAiBatch_Inr [OF r pa ra di]]
  show "length out1 = length chunks"
    and "\<forall>i < length chunks.
            out1 ! i =
              (if servedFromCache (loadEmbeddingCache s (map hash chunks)) (chunks ! i)
               then the (loadEmbeddingCache s (map hash chunks) (hash (chunks ! i)))
               else f (text' (chunks ! i)))"
    by blast+
next
  assume pa: "providerAnswers e f"
    and "runnersAnswer e f \<and> distinct (map (customId e src entry) (zip [0..<length chunks] chunks))"
    and r: "embedChunksWithGeminiBatch e chunks entry src s = (Inr out2, s2)"
  then have ra: "runnersAnswer e f"
    and di: "distinct (map (customId e src entry) (zip [0..<length chunks] chunks))" by simp_all
  from vectorFor_slots [OF geminiBatch_Inr [OF r pa ra di]]
  show "length out2 = length chunks"
    and "\<forall>i < length chunks.
            out2 ! i =
              (if servedFromCache (loadEmbeddingCache s (map hash chunks)) (chunks ! i)
               then the (loadEmbeddingCache s (map hash chunks) (hash (chunks ! i)))
               else f (text' (chunks ! i)))"
    by blast+
next
  assume "\<forall>n ts. \<exists>vs. provider_embedBatch e n ts = Resolved vs"
  then show "\<exists>out t. embedChunksInBatches e chunks s = (Inr out, t)" by (rule inline_total)
next
  assume a: "batch_enabled s \<and> openAi s = Some cm \<and>
    runOpenAiEmbeddingBatches e (openAiBatch_calls s)
      (map (\<lambda>item. \<lparr>custom_id = customId e src entry item, http_method = ''POST'',
                     body_model = cm, body_input = text' (snd item)\<rparr>)
         (filter (\<lambda>ic. \<not> servedFromCache (loadEmbeddingCache s (map hash chunks)) (snd ic))
            (zip [0..<length chunks] chunks))) = Inr kvs"
  show "\<exists>out t. embedChunksWithOpenAiBatch e chunks entry src s = (Inr out, t)"
    by (rule openAi_total [OF conjunct1 [OF a] conjunct1 [OF conjunct2 [OF a]]
          conjunct2 [OF conjunct2 [OF a]]])
next
  assume a: "batch_enabled s \<and> gemini s = Some cl \<and>
    runGeminiEmbeddingBatches e (geminiBatch_calls s)
      (map (\<lambda>item. \<lparr>g_custom_id = customId e src entry item, content_text = text' (snd item),
                     taskType = ''RETRIEVAL_DOCUMENT''\<rparr>)
         (filter (\<lambda>ic. \<not> servedFromCache (loadEmbeddingCache s (map hash chunks)) (snd ic))
            (zip [0..<length chunks] chunks))) = Inr kvs2"
  show "\<exists>out t. embedChunksWithGeminiBatch e chunks entry src s = (Inr out, t)"
    by (rule gemini_total [OF conjunct1 [OF a] conjunct1 [OF conjunct2 [OF a]]
          conjunct2 [OF conjunct2 [OF a]]])
qed


theorem cache_hit_needs_hash_and_vector_witness:
  "cache_enabled sampleService \<and> ''h1'' \<noteq> [] \<and> hash smallChunk = ''h1'' \<and>
   cachedVector (upsertEmbeddingCache [(''h1'', [])] sampleService) ''h1'' = Some [] \<and>
   \<not> servedFromCache
        (loadEmbeddingCache (upsertEmbeddingCache [(''h1'', [])] sampleService) [''h1'']) smallChunk \<and>
   servedFromCache (loadEmbeddingCache warmService (map hash [smallChunk])) smallChunk \<and>
   openAi warmService \<noteq> None \<and> batch_enabled warmService \<and>
   embedChunksInBatches failingEnv [smallChunk] warmService =
     (Inr (map (\<lambda>c. the (loadEmbeddingCache warmService (map hash [smallChunk]) (hash c))) [smallChunk]),
      warmService) \<and>
   embedChunksWithOpenAiBatch failingEnv [smallChunk] sampleEntry Memory warmService =
     (Inr (map (\<lambda>c. the (loadEmbeddingCache warmService (map hash [smallChunk]) (hash c))) [smallChunk]),
      warmService) \<and>
   \<not> servedFromCache (loadEmbeddingCache warmService (map hash [smallChunk, otherChunk])) otherChunk \<and>
   embedBatch_calls warmService <
     embedBatch_calls (snd (embedChunksInBatches goodEnv [smallChunk, otherChunk] warmService)) \<and>
   openAiBatch_calls warmService <
     openAiBatch_calls (snd (embedChunksWithOpenAiBatch goodEnv [smallChunk, otherChunk]
        sampleEntry Memory warmService)) \<and>
   providerAnswers goodEnv sampleEmbed \<and> runnersAnswer goodEnv sampleEmbed \<and>
   distinct (map (customId goodEnv Memory sampleEntry)
      (zip [0..<length [smallChunk, otherChunk]] [smallChunk, otherChunk])) \<and>
   embedChunksWithOpenAiBatch goodEnv [smallChunk, otherChunk] sampleEntry Memory warmService =
     (Inr [[7], [3]],
      warmService\<lparr>openAiBatch_calls := 1,
        db := [sampleRow ''h1'' [7] 30, sampleRow ''h9'' [3] 1000]\<rparr>) \<and>
   [[7], [3]] ! 1 = sampleEmbed (text' ([smallChunk, otherChunk] ! 1)) \<and>
   gemini geminiService \<noteq> None \<and> batch_enabled geminiService \<and>
   \<not> servedFromCache (loadEmbeddingCache geminiService (map hash [smallChunk, otherChunk])) otherChunk \<and>
   embedChunksWithGeminiBatch goodEnv [smallChunk, otherChunk] sampleEntry Memory geminiService =
     (Inr [[7], [3]],
      geminiService\<lparr>geminiBatch_calls := 1,
        db := [sampleRow ''h1'' [7] 30, sampleRow ''h9'' [3] 1000]\<rparr>) \<and>
   geminiBatch_calls geminiService <
     geminiBatch_calls (snd (embedChunksWithGeminiBatch goodEnv [smallChunk, otherChunk]
        sampleEntry Memory geminiService)) \<and>
   (\<exists>out t. embedChunksInBatches goodEnv [smallChunk, otherChunk] warmService = (Inr out, t))"
proof -
  have h1: "cache_enabled sampleService \<and> ''h1'' \<noteq> []" by (simp add: sampleService_def)
  have h2: "hash smallChunk = ''h1''" by (simp add: smallChunk_def)
  have sv: "servedFromCache (loadEmbeddingCache warmService (map hash [smallChunk])) smallChunk"
    by (simp add: servedFromCache_def loadEmbeddingCache_eq cachedVector_def warmService_def
        sampleService_def sampleRow_def smallChunk_def)
  then have all: "\<forall>c \<in> set [smallChunk].
      servedFromCache (loadEmbeddingCache warmService (map hash [smallChunk])) c" by simp
  have ns: "\<not> servedFromCache (loadEmbeddingCache warmService (map hash [smallChunk, otherChunk])) otherChunk"
    unfolding warm_cached by (simp add: servedFromCache_def otherChunk_def)
  then have ex: "\<exists>c \<in> set [smallChunk, otherChunk].
      \<not> servedFromCache (loadEmbeddingCache warmService (map hash [smallChunk, otherChunk])) c" by simp
  have o: "openAi warmService \<noteq> None" "batch_enabled warmService"
    by (simp_all add: warmService_def sampleService_def)
  have g: "gemini geminiService \<noteq> None" "batch_enabled geminiService"
    by (simp_all add: geminiService_def warmService_def sampleService_def)
  have gc: "loadEmbeddingCache geminiService (map hash [smallChunk, otherChunk]) = [''h1'' \<mapsto> [7]]"
    using warm_cached loadEmbeddingCache_sameCache [of warmService geminiService]
    by (simp add: sameCache_def geminiService_def)
  have gns: "\<not> servedFromCache (loadEmbeddingCache geminiService (map hash [smallChunk, otherChunk])) otherChunk"
    unfolding gc by (simp add: servedFromCache_def otherChunk_def)
  then have gex: "\<exists>c \<in> set [smallChunk, otherChunk].
      \<not> servedFromCache (loadEmbeddingCache geminiService (map hash [smallChunk, otherChunk])) c" by simp
  have res: "\<forall>n ts. \<exists>vs. provider_embedBatch goodEnv n ts = Resolved vs"
    by (simp add: goodEnv_def)
  note a = cache_hit_needs_hash_and_vector [where s = sampleService and h = "''h1''"
      and c = smallChunk and hashes = "[''h1'']"]
  note b = cache_hit_needs_hash_and_vector [where s = warmService and chunks = "[smallChunk]"
      and e = failingEnv and entry = sampleEntry and src = Memory]
  note c = cache_hit_needs_hash_and_vector [where s = warmService
      and chunks = "[smallChunk, otherChunk]" and e = goodEnv and entry = sampleEntry and src = Memory
      and f = sampleEmbed and ?out1.0 = "[[7], [3]]"
      and ?s1.0 = "warmService\<lparr>openAiBatch_calls := 1,
        db := [sampleRow ''h1'' [7] 30, sampleRow ''h9'' [3] 1000]\<rparr>"]
  note d = cache_hit_needs_hash_and_vector [where s = geminiService
      and chunks = "[smallChunk, otherChunk]" and e = goodEnv and entry = sampleEntry and src = Memory]
  from a [THEN conjunct2, THEN conjunct2, THEN conjunct1] h1 h2 have r1:
    "cachedVector (upsertEmbeddingCache [(''h1'', [])] sampleService) ''h1'' = Some []"
    "\<not> servedFromCache
        (loadEmbeddingCache (upsertEmbeddingCache [(''h1'', [])] sampleService) [''h1'']) smallChunk"
    by blast+
  from b [THEN conjunct2, THEN conjunct2, THEN conjunct2, THEN conjunct1] all o have r2:
    "embedChunksInBatches failingEnv [smallChunk] warmService =
     (Inr (map (\<lambda>c. the (loadEmbeddingCache warmService (map hash [smallChunk]) (hash c))) [smallChunk]),
      warmService)"
    "embedChunksWithOpenAiBatch failingEnv [smallChunk] sampleEntry Memory warmService =
     (Inr (map (\<lambda>c. the (loadEmbeddingCache warmService (map hash [smallChunk]) (hash c))) [smallChunk]),
      warmService)"
    by blast+
  from c [THEN conjunct2, THEN conjunct2, THEN conjunct2, THEN conjunct2, THEN conjunct1] ex o have r3:
    "embedBatch_calls warmService <
     embedBatch_calls (snd (embedChunksInBatches goodEnv [smallChunk, otherChunk] warmService))"
    "openAiBatch_calls warmService <
     openAiBatch_calls (snd (embedChunksWithOpenAiBatch goodEnv [smallChunk, otherChunk]
        sampleEntry Memory warmService))"
    by blast+
  from c [THEN conjunct2, THEN conjunct2, THEN conjunct2, THEN conjunct2, THEN conjunct2, THEN conjunct1] goodEnv_provider goodEnv_runners sample_ids warm_openAi
  have "\<forall>i < length [smallChunk, otherChunk].
      [[7], [3]] ! i =
        (if servedFromCache (loadEmbeddingCache warmService (map hash [smallChunk, otherChunk]))
              ([smallChunk, otherChunk] ! i)
         then the (loadEmbeddingCache warmService (map hash [smallChunk, otherChunk])
              (hash ([smallChunk, otherChunk] ! i)))
         else sampleEmbed (text' ([smallChunk, otherChunk] ! i)))"
    by blast
  from this [rule_format, of 1] ns
  have r4: "[[7], [3]] ! 1 = sampleEmbed (text' ([smallChunk, otherChunk] ! 1))" by simp
  from d [THEN conjunct2, THEN conjunct2, THEN conjunct2, THEN conjunct2, THEN conjunct1] gex g have r5:
    "geminiBatch_calls geminiService <
     geminiBatch_calls (snd (embedChunksWithGeminiBatch goodEnv [smallChunk, otherChunk]
        sampleEntry Memory geminiService))"
    by blast
  from c [THEN conjunct2, THEN conjunct2, THEN conjunct2, THEN conjunct2, THEN conjunct2, THEN conjunct2, THEN conjunct1] res have r6:
    "\<exists>out t. embedChunksInBatches goodEnv [smallChunk, otherChunk] warmService = (Inr out, t)"
    by blast
  from h1 h2 r1 sv o r2 ns r3 have p1:
   "cache_enabled sampleService \<and> ''h1'' \<noteq> [] \<and> hash smallChunk = ''h1'' \<and>
   cachedVector (upsertEmbeddingCache [(''h1'', [])] sampleService) ''h1'' = Some [] \<and>
   \<not> servedFromCache
        (loadEmbeddingCache (upsertEmbeddingCache [(''h1'', [])] sampleService) [''h1'']) smallChunk \<and>
   servedFromCache (loadEmbeddingCache warmService (map hash [smallChunk])) smallChunk \<and>
   openAi warmService \<noteq> None \<and> batch_enabled warmService \<and>
   embedChunksInBatches failingEnv [smallChunk] warmService =
     (Inr (map (\<lambda>c. the (loadEmbeddingCache warmService (map hash [smallChunk]) (hash c))) [smallChunk]),
      warmService) \<and>
   embedChunksWithOpenAiBatch failingEnv [smallChunk] sampleEntry Memory warmService =
     (Inr (map (\<lambda>c. the (loadEmbeddingCache warmService (map hash [smallChunk]) (hash c))) [smallChunk]),
      warmService) \<and>
   \<not> servedFromCache (loadEmbeddingCache warmService (map hash [smallChunk, otherChunk])) otherChunk \<and>
   embedBatch_calls warmService <
     embedBatch_calls (snd (embedChunksInBatches goodEnv [smallChunk, otherChunk] warmService)) \<and>
   openAiBatch_calls warmService <
     openAiBatch_calls (snd (embedChunksWithOpenAiBatch goodEnv [smallChunk, otherChunk]
        sampleEntry Memory warmService))"
    by blast
  from goodEnv_provider goodEnv_runners sample_ids warm_openAi r4 g gns warm_gemini r5 r6 have p2:
   "providerAnswers goodEnv sampleEmbed \<and> runnersAnswer goodEnv sampleEmbed \<and>
   distinct (map (customId goodEnv Memory sampleEntry)
      (zip [0..<length [smallChunk, otherChunk]] [smallChunk, otherChunk])) \<and>
   embedChunksWithOpenAiBatch goodEnv [smallChunk, otherChunk] sampleEntry Memory warmService =
     (Inr [[7], [3]],
      warmService\<lparr>openAiBatch_calls := 1,
        db := [sampleRow ''h1'' [7] 30, sampleRow ''h9'' [3] 1000]\<rparr>) \<and>
   [[7], [3]] ! 1 = sampleEmbed (text' ([smallChunk, otherChunk] ! 1)) \<and>
   gemini geminiService \<noteq> None \<and> batch_enabled geminiService \<and>
   \<not> servedFromCache (loadEmbeddingCache geminiService (map hash [smallChunk, otherChunk])) otherChunk \<and>
   embedChunksWithGeminiBatch goodEnv [smallChunk, otherChunk] sampleEntry Memory geminiService =
     (Inr [[7], [3]],
      geminiService\<lparr>geminiBatch_calls := 1,
        db := [sampleRow ''h1'' [7] 30, sampleRow ''h9'' [3] 1000]\<rparr>) \<and>
   geminiBatch_calls geminiService <
     geminiBatch_calls (snd (embedChunksWithGeminiBatch goodEnv [smallChunk, otherChunk]
        sampleEntry Memory geminiService)) \<and>
   (\<exists>out t. embedChunksInBatches goodEnv [smallChunk, otherChunk] warmService = (Inr out, t))"
    by blast
  from conjI [OF p1 p2] show ?thesis unfolding conj_assoc .
qed


subsection \<open>Embedding a chunk twice\<close>

lemma writeAll_Nil: "writeAll em [] = em"
  by (simp add: writeAll_def)

lemma writeAll_append: "writeAll em (ws @ vs) = writeAll (writeAll em ws) vs"
  by (simp add: writeAll_def)

lemma writeAll_Cons: "writeAll em (w # ws) = writeAll (em[fst w := snd (snd w)]) ws"
  by (simp add: writeAll_def)

lemma writeAll_length: "length (writeAll em ws) = length em"
  by (induction ws arbitrary: em) (simp_all add: writeAll_Nil writeAll_Cons)

lemma writeAll_unwritten:
  "\<forall>w \<in> set ws. fst w \<noteq> j \<Longrightarrow> writeAll em ws ! j = em ! j"
  by (induction ws arbitrary: em) (simp_all add: writeAll_Nil writeAll_Cons)

lemma writeAll_last:
  assumes "j < length em" and "\<forall>w \<in> set ws2. fst w \<noteq> j"
  shows "writeAll em (ws1 @ (j, h, v) # ws2) ! j = v"
proof -
  have "writeAll em (ws1 @ (j, h, v) # ws2) = writeAll ((writeAll em ws1)[j := v]) ws2"
    by (simp add: writeAll_append writeAll_Cons)
  also have "\<dots> ! j = ((writeAll em ws1)[j := v]) ! j" using assms(2) by (rule writeAll_unwritten)
  also have "\<dots> = v" using assms(1) by (simp add: writeAll_length)
  finally show ?thesis .
qed

text \<open>The loops that fill \<^verbatim>\<open>embeddings\<close> and \<^verbatim>\<open>toCache\<close> make the same writes to both.\<close>

lemma assign_log:
  "foldl (assignStep missing cursor bE) (em, tc) is = (em', tc') \<Longrightarrow>
   \<exists>ws. em' = writeAll em ws \<and> tc' = tc @ map snd ws \<and>
        (\<forall>w \<in> set ws. \<exists>c. (fst w, c) \<in> set missing \<and> fst (snd w) = hash c)"
proof (induction "is" arbitrary: em tc)
  case Nil
  then show ?case by (intro exI [of _ "[]"]) (simp add: writeAll_Nil)
next
  case (Cons i "is")
  obtain em1 tc1 where st: "assignStep missing cursor bE (em, tc) i = (em1, tc1)"
    by (cases "assignStep missing cursor bE (em, tc) i") auto
  have "\<exists>ws0. em1 = writeAll em ws0 \<and> tc1 = tc @ map snd ws0 \<and>
        (\<forall>w \<in> set ws0. \<exists>c. (fst w, c) \<in> set missing \<and> fst (snd w) = hash c)"
  proof (cases "cursor + i < length missing")
    case False
    with st have "em1 = em" "tc1 = tc" by (simp_all add: assignStep_def)
    then show ?thesis by (intro exI [of _ "[]"]) (simp add: writeAll_Nil)
  next
    case True
    obtain index c where m: "missing ! (cursor + i) = (index, c)" by (cases "missing ! (cursor + i)") auto
    let ?v = "if i < length bE then bE ! i else []"
    from True m st have "em1 = em[index := ?v]" "tc1 = tc @ [(hash c, ?v)]"
      by (simp_all add: assignStep_def Let_def)
    moreover from True m have "(index, c) \<in> set missing" by (metis nth_mem)
    ultimately show ?thesis
      by (intro exI [of _ "[(index, hash c, ?v)]"]) (auto simp: writeAll_Cons writeAll_Nil)
  qed
  then obtain ws0 where w0: "em1 = writeAll em ws0" "tc1 = tc @ map snd ws0"
    "\<forall>w \<in> set ws0. \<exists>c. (fst w, c) \<in> set missing \<and> fst (snd w) = hash c" by blast
  from Cons.prems st have "foldl (assignStep missing cursor bE) (em1, tc1) is = (em', tc')" by simp
  from Cons.IH [OF this] obtain ws1 where w1: "em' = writeAll em1 ws1" "tc' = tc1 @ map snd ws1"
    "\<forall>w \<in> set ws1. \<exists>c. (fst w, c) \<in> set missing \<and> fst (snd w) = hash c" by blast
  from w0 w1 show ?case
    by (intro exI [of _ "ws0 @ ws1"]) (auto simp: writeAll_append)
qed

lemma embedBins_log:
  "embedBins e missing batches cursor em tc s = (Inr (em', tc'), s') \<Longrightarrow>
   \<exists>ws. em' = writeAll em ws \<and> tc' = tc @ map snd ws \<and>
        (\<forall>w \<in> set ws. \<exists>c. (fst w, c) \<in> set missing \<and> fst (snd w) = hash c)"
proof (induction batches arbitrary: cursor em tc s)
  case Nil
  then show ?case by (intro exI [of _ "[]"]) (simp add: writeAll_Nil)
next
  case (Cons batch batches)
  obtain r t where r: "embedBatchWithRetry e (map text' batch) s = (r, t)"
    by (cases "embedBatchWithRetry e (map text' batch) s") auto
  with Cons.prems obtain vs where vs: "r = Inr vs" by (cases r) auto
  obtain em1 tc1 where a: "foldl (assignStep missing cursor vs) (em, tc) [0..<length batch] = (em1, tc1)"
    by (cases "foldl (assignStep missing cursor vs) (em, tc) [0..<length batch]") auto
  from assign_log [OF a] obtain ws0 where w0: "em1 = writeAll em ws0" "tc1 = tc @ map snd ws0"
    "\<forall>w \<in> set ws0. \<exists>c. (fst w, c) \<in> set missing \<and> fst (snd w) = hash c" by blast
  from Cons.prems r vs a
  have "embedBins e missing batches (cursor + length batch) em1 tc1 t = (Inr (em', tc'), s')" by simp
  from Cons.IH [OF this] obtain ws1 where w1: "em' = writeAll em1 ws1" "tc' = tc1 @ map snd ws1"
    "\<forall>w \<in> set ws1. \<exists>c. (fst w, c) \<in> set missing \<and> fst (snd w) = hash c" by blast
  from w0 w1 show ?case
    by (intro exI [of _ "ws0 @ ws1"]) (auto simp: writeAll_append)
qed

lemma reconcile_log:
  "foldl (reconcileStep mapping) (em, tc) kvs = (em', tc') \<Longrightarrow>
   \<exists>ws. em' = writeAll em ws \<and> tc' = tc @ map snd ws \<and>
        (\<forall>w \<in> set ws. \<exists>k. mapping k = Some (fst w, fst (snd w)))"
proof (induction kvs arbitrary: em tc)
  case Nil
  then show ?case by (intro exI [of _ "[]"]) (simp add: writeAll_Nil)
next
  case (Cons kv kvs)
  obtain em1 tc1 where st: "reconcileStep mapping (em, tc) kv = (em1, tc1)"
    by (cases "reconcileStep mapping (em, tc) kv") auto
  have "\<exists>ws0. em1 = writeAll em ws0 \<and> tc1 = tc @ map snd ws0 \<and>
        (\<forall>w \<in> set ws0. \<exists>k. mapping k = Some (fst w, fst (snd w)))"
  proof (cases "mapping (fst kv)")
    case None
    with st have "em1 = em" "tc1 = tc" by (simp_all add: reconcileStep_def split: prod.splits)
    then show ?thesis by (intro exI [of _ "[]"]) (simp add: writeAll_Nil)
  next
    case (Some ih)
    obtain index h where ih: "ih = (index, h)" by (cases ih) auto
    from Some ih st have "em1 = em[index := snd kv]" "tc1 = tc @ [(h, snd kv)]"
      by (simp_all add: reconcileStep_def split: prod.splits)
    with Some ih show ?thesis
      by (intro exI [of _ "[(index, h, snd kv)]"]) (auto simp: writeAll_Cons writeAll_Nil)
  qed
  then obtain ws0 where w0: "em1 = writeAll em ws0" "tc1 = tc @ map snd ws0"
    "\<forall>w \<in> set ws0. \<exists>k. mapping k = Some (fst w, fst (snd w))" by blast
  from Cons.prems st have "foldl (reconcileStep mapping) (em1, tc1) kvs = (em', tc')" by simp
  from Cons.IH [OF this] obtain ws1 where w1: "em' = writeAll em1 ws1" "tc' = tc1 @ map snd ws1"
    "\<forall>w \<in> set ws1. \<exists>k. mapping k = Some (fst w, fst (snd w))" by blast
  from w0 w1 show ?case
    by (intro exI [of _ "ws0 @ ws1"]) (auto simp: writeAll_append)
qed

text \<open>What an upsert leaves in the cache under a hash.\<close>

lemma cachedVector_step:
  "cachedVector (s\<lparr>db := upsertRow rows (entryRow s now (h', v))\<rparr>) h =
     (if h' = h then Some v else cachedVector (s\<lparr>db := rows\<rparr>) h)"
proof -
  let ?new = "entryRow s now (h', v)"
  let ?P = "\<lambda>r. row_provider r = provider_id s \<and> row_model r = provider_model s \<and>
                 row_provider_key r = providerKey s \<and> row_hash r = h"
  let ?g = "\<lambda>r. if sameKey r ?new
                then r\<lparr>row_embedding := row_embedding ?new, row_dims := row_dims ?new,
                       row_updated_at := row_updated_at ?new\<rparr>
                else r"
  have Pg: "?P (?g r) \<longleftrightarrow> ?P r" for r by simp
  have cv: "cachedVector (s\<lparr>db := d\<rparr>) h =
      (if filter ?P d = [] then None else Some (row_embedding (last (filter ?P d))))" for d
    by (simp add: cachedVector_if Let_def)
  show ?thesis
  proof (cases "\<exists>r \<in> set rows. sameKey r ?new")
    case True
    then have u: "upsertRow rows ?new = map ?g rows" by (simp add: upsertRow_def)
    have f: "filter ?P (map ?g rows) = map ?g (filter ?P rows)"
      by (simp only: filter_map comp_def Pg)
    show ?thesis
    proof (cases "h' = h")
      case eq: True
      have PK: "?P r \<longleftrightarrow> sameKey r ?new" for r using eq by (auto simp: sameKey_def entryRow_def)
      from True have ne: "filter ?P rows \<noteq> []" by (auto simp: filter_empty_conv PK)
      then have "last (map ?g (filter ?P rows)) = ?g (last (filter ?P rows))" by (rule last_map)
      moreover from ne have "last (filter ?P rows) \<in> set (filter ?P rows)" by (rule last_in_set)
      then have "?P (last (filter ?P rows))" by simp
      then have "row_embedding (?g (last (filter ?P rows))) = v"
        by (simp only: PK) (simp add: entryRow_def)
      ultimately have "filter ?P (upsertRow rows ?new) \<noteq> [] \<and>
          row_embedding (last (filter ?P (upsertRow rows ?new))) = v"
        using ne by (simp only: u f) simp
      with eq show ?thesis by (simp only: cv) simp
    next
      case neq: False
      have gid: "?g r = r" if "?P r" for r using that neq by (simp add: sameKey_def entryRow_def)
      have "map ?g (filter ?P rows) = filter ?P rows"
      proof (rule map_idI)
        fix r assume "r \<in> set (filter ?P rows)"
        then have "?P r" by simp
        then show "?g r = r" by (rule gid)
      qed
      with f u have "filter ?P (upsertRow rows ?new) = filter ?P rows" by (simp only:)
      with neq show ?thesis by (simp only: cv) simp
    qed
  next
    case False
    then have u: "upsertRow rows ?new = rows @ [?new]" by (simp add: upsertRow_def)
    show ?thesis by (simp only: cv u) (auto simp: entryRow_def)
  qed
qed

lemma upsert_other:
  "\<forall>en \<in> set entries. fst en \<noteq> h \<Longrightarrow>
   cachedVector (s\<lparr>db := foldl (\<lambda>rows en. upsertRow rows (entryRow s now en)) rows entries\<rparr>) h =
     cachedVector (s\<lparr>db := rows\<rparr>) h"
proof (induction entries arbitrary: rows)
  case Nil
  show ?case by simp
next
  case (Cons en entries)
  from Cons.prems have ne: "fst en \<noteq> h" and rest: "\<forall>en \<in> set entries. fst en \<noteq> h" by simp_all
  have "cachedVector (s\<lparr>db := foldl (\<lambda>rows en. upsertRow rows (entryRow s now en)) rows (en # entries)\<rparr>) h =
      cachedVector (s\<lparr>db := foldl (\<lambda>rows en. upsertRow rows (entryRow s now en))
        (upsertRow rows (entryRow s now en)) entries\<rparr>) h" by simp
  also have "\<dots> = cachedVector (s\<lparr>db := upsertRow rows (entryRow s now en)\<rparr>) h"
    using rest by (rule Cons.IH)
  also have "\<dots> = cachedVector (s\<lparr>db := rows\<rparr>) h"
    using cachedVector_step [where s = s and rows = rows and now = now and h' = "fst en"
        and v = "snd en" and h = h] ne by simp
  finally show ?case .
qed

lemma upsert_last:
  assumes "\<forall>en \<in> set zs. fst en \<noteq> h"
  shows "cachedVector (s\<lparr>db := foldl (\<lambda>rows en. upsertRow rows (entryRow s now en)) rows
            (ys @ (h, v) # zs)\<rparr>) h = Some v"
proof -
  let ?U = "foldl (\<lambda>rows en. upsertRow rows (entryRow s now en))"
  have "cachedVector (s\<lparr>db := ?U rows (ys @ (h, v) # zs)\<rparr>) h =
      cachedVector (s\<lparr>db := ?U (upsertRow (?U rows ys) (entryRow s now (h, v))) zs\<rparr>) h" by simp
  also have "\<dots> = cachedVector (s\<lparr>db := upsertRow (?U rows ys) (entryRow s now (h, v))\<rparr>) h"
    using assms by (rule upsert_other)
  also have "\<dots> = Some v" by (simp add: cachedVector_step)
  finally show ?thesis .
qed

lemma upsertEmbeddingCache_other:
  assumes "\<forall>en \<in> set entries. fst en \<noteq> h"
  shows "cachedVector (upsertEmbeddingCache entries t) h = cachedVector t h"
proof (cases "\<not> cache_enabled t \<or> entries = []")
  case True
  then show ?thesis by (auto simp: upsertEmbeddingCache_def)
next
  case False
  then have "upsertEmbeddingCache entries t =
      t\<lparr>db := foldl (\<lambda>rows en. upsertRow rows (entryRow t (clock t) en)) (db t) entries\<rparr>"
    by (simp add: upsertEmbeddingCache_def Let_def)
  with upsert_other [OF assms, where s = t and now = "clock t" and rows = "db t"] show ?thesis by simp
qed

lemma upsertEmbeddingCache_last:
  assumes "cache_enabled t" and "\<forall>en \<in> set zs. fst en \<noteq> h"
  shows "cachedVector (upsertEmbeddingCache (ys @ (h, v) # zs) t) h = Some v"
proof -
  from assms(1) have "upsertEmbeddingCache (ys @ (h, v) # zs) t =
      t\<lparr>db := foldl (\<lambda>rows en. upsertRow rows (entryRow t (clock t) en)) (db t) (ys @ (h, v) # zs)\<rparr>"
    by (simp add: upsertEmbeddingCache_def Let_def)
  with upsert_last [OF assms(2), where s = t and now = "clock t" and rows = "db t" and ys = ys and v = v]
  show ?thesis by simp
qed


lemma cachedVector_sameCache: "sameCache s t \<Longrightarrow> cachedVector t h = cachedVector s h"
  by (simp add: cachedVector_def sameCache_def)

text \<open>
  After a loop has made the writes \<open>ws\<close>, each under the hash of the chunk at its index:
  the vector in a slot is the one in the cache under the hash of its chunk, when the
  slots of the chunks with that hash hold one vector.
\<close>

lemma log_cache:
  assumes en: "cache_enabled t"
    and ws: "\<forall>w \<in> set ws. fst w < length em \<and> fst (snd w) = H (fst w)"
    and i: "i < length em"
    and agree: "\<forall>j < length em. H j = H i \<longrightarrow> writeAll em ws ! j = writeAll em ws ! i"
  shows "(\<exists>w \<in> set ws. fst (snd w) = H i) \<Longrightarrow>
           cachedVector (upsertEmbeddingCache (map snd ws) t) (H i) = Some (writeAll em ws ! i)"
    and "\<not> (\<exists>w \<in> set ws. fst (snd w) = H i) \<Longrightarrow>
           cachedVector (upsertEmbeddingCache (map snd ws) t) (H i) = cachedVector t (H i) \<and>
           writeAll em ws ! i = em ! i"
proof -
  assume "\<exists>w \<in> set ws. fst (snd w) = H i"
  from split_list_last_prop [OF this]
  obtain ws1 w ws2 where sp: "ws = ws1 @ w # ws2" "fst (snd w) = H i"
    "\<forall>z \<in> set ws2. fst (snd z) \<noteq> H i" by blast
  obtain j h v where w: "w = (j, h, v)" by (cases w) auto
  from sp(1) have "w \<in> set ws" by simp
  with ws w have j: "j < length em" "h = H j" by auto
  from sp(2) w have hh: "h = H i" by simp
  have nz: "\<forall>z \<in> set ws2. fst z \<noteq> j"
  proof
    fix z assume z: "z \<in> set ws2"
    with sp(1) have "z \<in> set ws" by simp
    with ws have "fst (snd z) = H (fst z)" by blast
    with sp(3) z j(2) hh show "fst z \<noteq> j" by auto
  qed
  from writeAll_last [OF j(1) nz, of ws1 h v] sp(1) w have "writeAll em ws ! j = v" by simp
  moreover from agree j hh have "writeAll em ws ! j = writeAll em ws ! i" by simp
  ultimately have v: "v = writeAll em ws ! i" by simp
  have "map snd ws = map snd ws1 @ (H i, v) # map snd ws2" using sp(1) w hh by simp
  moreover have "\<forall>en \<in> set (map snd ws2). fst en \<noteq> H i" using sp(3) by auto
  ultimately have "cachedVector (upsertEmbeddingCache (map snd ws) t) (H i) = Some v"
    using upsertEmbeddingCache_last [OF en, of "map snd ws2" "H i" "map snd ws1" v] by simp
  with v show "cachedVector (upsertEmbeddingCache (map snd ws) t) (H i) = Some (writeAll em ws ! i)"
    by simp
next
  assume no: "\<not> (\<exists>w \<in> set ws. fst (snd w) = H i)"
  then have "\<forall>en \<in> set (map snd ws). fst en \<noteq> H i" by auto
  then have a: "cachedVector (upsertEmbeddingCache (map snd ws) t) (H i) = cachedVector t (H i)"
    by (rule upsertEmbeddingCache_other)
  have "\<forall>w \<in> set ws. fst w \<noteq> i"
  proof
    fix w assume "w \<in> set ws"
    with ws no show "fst w \<noteq> i" by auto
  qed
  then have "writeAll em ws ! i = em ! i" by (rule writeAll_unwritten)
  with a show "cachedVector (upsertEmbeddingCache (map snd ws) t) (H i) = cachedVector t (H i) \<and>
           writeAll em ws ! i = em ! i" by simp
qed

lemma log_after:
  fixes chunks :: "chunk list" and s :: service
  defines "cached \<equiv> loadEmbeddingCache s (map hash chunks)"
  defines "em \<equiv> map (\<lambda>c. if servedFromCache cached c then the (cached (hash c)) else []) chunks"
  assumes en: "cache_enabled s" and sc: "sameCache s t"
    and ws: "\<forall>w \<in> set ws. fst w < length chunks \<and> fst (snd w) = hash (chunks ! fst w)"
    and out: "out = writeAll em ws"
    and i: "i < length chunks" and h: "hash (chunks ! i) \<noteq> []"
    and agree: "\<forall>j < length chunks. hash (chunks ! j) = hash (chunks ! i) \<longrightarrow> out ! j = out ! i"
  shows "cachedVector (upsertEmbeddingCache (map snd ws) t) (hash (chunks ! i)) = Some (out ! i) \<or>
         (out ! i = [] \<and> cachedVector (upsertEmbeddingCache (map snd ws) t) (hash (chunks ! i)) = None)"
proof -
  let ?h = "hash (chunks ! i)"
  let ?s1 = "upsertEmbeddingCache (map snd ws) t"
  have lem: "length em = length chunks" by (simp add: em_def)
  from en sc have ent: "cache_enabled t" by (simp add: sameCache_def)
  from ws lem have ws': "\<forall>w \<in> set ws. fst w < length em \<and> fst (snd w) = (\<lambda>j. hash (chunks ! j)) (fst w)"
    by simp
  from i lem have i': "i < length em" by simp
  from agree out lem
  have agree': "\<forall>j < length em. (\<lambda>j. hash (chunks ! j)) j = (\<lambda>j. hash (chunks ! j)) i \<longrightarrow>
      writeAll em ws ! j = writeAll em ws ! i" by simp
  note lc = log_cache [where H = "\<lambda>j. hash (chunks ! j)", OF ent ws' i' agree']
  show ?thesis
  proof (cases "\<exists>w \<in> set ws. fst (snd w) = ?h")
    case True
    from lc(1) [OF True] out show ?thesis by simp
  next
    case False
    from lc(2) [OF False] out
    have a: "cachedVector ?s1 ?h = cachedVector t ?h" and b: "out ! i = em ! i" by simp_all
    from cachedVector_sameCache [OF sc] a have a': "cachedVector ?s1 ?h = cachedVector s ?h" by simp
    from en h i have c: "cached ?h = cachedVector s ?h"
      by (simp add: cached_def loadEmbeddingCache_eq)
    from b i have o: "out ! i = (if servedFromCache cached (chunks ! i) then the (cached ?h) else [])"
      by (simp add: em_def)
    show ?thesis
    proof (cases "cachedVector s ?h")
      case None
      with c have "\<not> servedFromCache cached (chunks ! i)" by (simp add: servedFromCache_def)
      with o a' None show ?thesis by simp
    next
      case (Some v)
      show ?thesis
      proof (cases "v = []")
        case True
        with c Some have "\<not> servedFromCache cached (chunks ! i)" by (simp add: servedFromCache_def)
        with o a' Some True show ?thesis by simp
      next
        case False
        with c Some h have "servedFromCache cached (chunks ! i)" by (simp add: servedFromCache_def)
        with o c a' Some show ?thesis by simp
      qed
    qed
  qed
qed

text \<open>The cache after a call of the inline path that returns.\<close>

lemma inline_after:
  assumes en: "cache_enabled s"
    and r: "embedChunksInBatches e chunks s = (Inr out, s1)"
    and i: "i < length chunks" and h: "hash (chunks ! i) \<noteq> []"
    and agree: "\<forall>j < length chunks. hash (chunks ! j) = hash (chunks ! i) \<longrightarrow> out ! j = out ! i"
  shows "cachedVector s1 (hash (chunks ! i)) = Some (out ! i) \<or>
         (out ! i = [] \<and> cachedVector s1 (hash (chunks ! i)) = None)"
    and "cache_enabled s1"
proof -
  let ?cached = "loadEmbeddingCache s (map hash chunks)"
  let ?em = "map (\<lambda>c. if servedFromCache ?cached c then the (?cached (hash c)) else []) chunks"
  let ?missing = "filter (\<lambda>ic. \<not> servedFromCache ?cached (snd ic)) (zip [0..<length chunks] chunks)"
  from embedChunksInBatches_frame [of e chunks s] r
  obtain n rows where "s1 = s\<lparr>embedBatch_calls := n, db := rows\<rparr>" by auto
  with en show "cache_enabled s1" by simp
  show "cachedVector s1 (hash (chunks ! i)) = Some (out ! i) \<or>
         (out ! i = [] \<and> cachedVector s1 (hash (chunks ! i)) = None)"
  proof (cases "?missing = []")
    case True
    then have "embedChunksInBatches e chunks s = (Inr ?em, s)"
      by (simp add: embedChunksInBatches_unfold Let_def)
    with r have "(Inr out :: js_error + vector list, s1) = (Inr ?em, s)" by (simp only:)
    then have o: "out = ?em" and s1: "s1 = s" by (simp_all only: prod.inject sum.inject)
    from o have o': "out = writeAll ?em []" by (simp only: writeAll_Nil)
    have ws0: "\<forall>w \<in> set ([] :: (nat \<times> string \<times> vector) list).
        fst w < length chunks \<and> fst (snd w) = hash (chunks ! fst w)" by simp
    have u: "upsertEmbeddingCache (map snd ([] :: (nat \<times> string \<times> vector) list)) s = s"
      by (simp add: upsertEmbeddingCache_def)
    from log_after [OF en sameCache_refl ws0 o' i h agree] show ?thesis
      by (simp only: u s1)
  next
    case False
    obtain rb t where rb: "embedBins e ?missing (buildEmbeddingBatches (map snd ?missing)) 0 ?em [] s = (rb, t)"
      by (cases "embedBins e ?missing (buildEmbeddingBatches (map snd ?missing)) 0 ?em [] s") auto
    from False rb have un: "embedChunksInBatches e chunks s =
        (case rb of Inl err \<Rightarrow> (Inl err, t)
         | Inr x \<Rightarrow> (Inr (fst x), upsertEmbeddingCache (snd x) t))"
      by (cases rb) (simp_all add: embedChunksInBatches_unfold Let_def split: prod.splits)
    obtain tc where rb': "rb = Inr (out, tc)" and s1: "s1 = upsertEmbeddingCache tc t"
    proof (cases rb)
      case (Inl err)
      with un r show ?thesis by simp
    next
      case (Inr x)
      with un r have "(Inr out :: js_error + vector list, s1) =
          (Inr (fst x), upsertEmbeddingCache (snd x) t)" by (simp only: sum.case)
      then have "out = fst x" "s1 = upsertEmbeddingCache (snd x) t"
        by (simp_all only: prod.inject sum.inject)
      with Inr that [of "snd x"] show ?thesis by simp
    qed
    from embedBins_log [of e ?missing "buildEmbeddingBatches (map snd ?missing)" 0 ?em "[]" s out tc t]
      rb rb'
    obtain ws where w: "out = writeAll ?em ws" "tc = map snd ws"
      "\<forall>w \<in> set ws. \<exists>c. (fst w, c) \<in> set ?missing \<and> fst (snd w) = hash c" by auto
    have ws: "\<forall>w \<in> set ws. fst w < length chunks \<and> fst (snd w) = hash (chunks ! fst w)"
    proof
      fix x assume "x \<in> set ws"
      with w(3) obtain c where c: "(fst x, c) \<in> set ?missing" "fst (snd x) = hash c" by blast
      from c(1) in_missing [of "fst x" c ?cached chunks] have "fst x < length chunks" "c = chunks ! fst x"
        by blast+
      with c(2) show "fst x < length chunks \<and> fst (snd x) = hash (chunks ! fst x)" by simp
    qed
    from embedBins_frame [of e ?missing "buildEmbeddingBatches (map snd ?missing)" 0 ?em "[]" s] rb
    obtain n where "t = s\<lparr>embedBatch_calls := n\<rparr>" by auto
    then have sc: "sameCache s t" by (simp add: sameCache_def)
    from log_after [OF en sc ws w(1) i h agree] show ?thesis by (simp only: s1 w(2))
  qed
qed


text \<open>The same after a call that finds every chunk in the cache.\<close>

lemma hits_after:
  assumes en: "cache_enabled s"
    and out: "out = map (\<lambda>c. if servedFromCache (loadEmbeddingCache s (map hash chunks)) c
                             then the (loadEmbeddingCache s (map hash chunks) (hash c)) else []) chunks"
    and i: "i < length chunks" and h: "hash (chunks ! i) \<noteq> []"
    and agree: "\<forall>j < length chunks. hash (chunks ! j) = hash (chunks ! i) \<longrightarrow> out ! j = out ! i"
  shows "cachedVector s (hash (chunks ! i)) = Some (out ! i) \<or>
         (out ! i = [] \<and> cachedVector s (hash (chunks ! i)) = None)"
proof -
  from out have o': "out = writeAll (map (\<lambda>c. if servedFromCache (loadEmbeddingCache s (map hash chunks)) c
        then the (loadEmbeddingCache s (map hash chunks) (hash c)) else []) chunks) []"
    by (simp only: writeAll_Nil)
  have ws0: "\<forall>w \<in> set ([] :: (nat \<times> string \<times> vector) list).
      fst w < length chunks \<and> fst (snd w) = hash (chunks ! fst w)" by simp
  have u: "upsertEmbeddingCache (map snd ([] :: (nat \<times> string \<times> vector) list)) s = s"
    by (simp add: upsertEmbeddingCache_def)
  from log_after [OF en sameCache_refl ws0 o' i h agree] show ?thesis by (simp only: u)
qed

lemma finishBatch_FromRun_state:
  "finishBatch mapping em (Inr (FromRun kvs), t) = (Inr out, s1) \<Longrightarrow>
   \<exists>tc. foldl (reconcileStep mapping) (em, []) kvs = (out, tc) \<and> s1 = upsertEmbeddingCache tc t"
  by (auto simp: finishBatch_def split: prod.splits)

text \<open>The cache after a call of a batch method that returns.\<close>

lemma batch_after:
  fixes chunks :: "chunk list" and s :: service
  defines "cached \<equiv> loadEmbeddingCache s (map hash chunks)"
  defines "em \<equiv> map (\<lambda>c. if servedFromCache cached c then the (cached (hash c)) else []) chunks"
  defines "missing \<equiv> filter (\<lambda>ic. \<not> servedFromCache cached (snd ic)) (zip [0..<length chunks] chunks)"
  assumes fr: "\<forall>s. sameCache s (snd (run s)) \<and> batch_enabled (snd (run s)) = batch_enabled s"
    and res: "finishBatch (buildMapping e src entry missing) em
        (runBatchWithFallback p run (embedChunksInBatches e chunks) s) = (Inr out, s1)"
    and en: "cache_enabled s"
    and i: "i < length chunks" and h: "hash (chunks ! i) \<noteq> []"
    and agree: "\<forall>j < length chunks. hash (chunks ! j) = hash (chunks ! i) \<longrightarrow> out ! j = out ! i"
  shows "cachedVector s1 (hash (chunks ! i)) = Some (out ! i) \<or>
         (out ! i = [] \<and> cachedVector s1 (hash (chunks ! i)) = None)"
    and "cache_enabled s1"
    and "length out = length chunks"
proof -
  let ?mapping = "buildMapping e src entry missing"
  let ?D = "\<lambda>s1. cachedVector s1 (hash (chunks ! i)) = Some (out ! i) \<or>
         (out ! i = [] \<and> cachedVector s1 (hash (chunks ! i)) = None)"
  from finishBatch_Inr [OF res] obtain x where
    okx: "fst (runBatchWithFallback p run (embedChunksInBatches e chunks) s) = Inr x" by blast
  have goal: "?D s1 \<and> cache_enabled s1 \<and> length out = length chunks"
    using runBatchWithFallback_cases [OF fr okx]
  proof
    assume "\<exists>kvs s0. runBatchWithTimeoutRetry p run s = (Inr kvs, s0) \<and> batch_enabled s \<and>
        runBatchWithFallback p run (embedChunksInBatches e chunks) s =
          (Inr (FromRun kvs), resetBatchFailureCount s0)"
    then obtain kvs s0 where rr: "runBatchWithTimeoutRetry p run s = (Inr kvs, s0)"
      and rf: "runBatchWithFallback p run (embedChunksInBatches e chunks) s =
          (Inr (FromRun kvs), resetBatchFailureCount s0)" by blast
    let ?t = "resetBatchFailureCount s0"
    from runBatchWithTimeoutRetry_sameCache [OF fr, of s p] rr have "sameCache s s0" by simp
    then have sc: "sameCache s ?t"
      using resetBatchFailureCount_sameCache by (rule sameCache_trans)
    from res rf have "finishBatch ?mapping em (Inr (FromRun kvs), ?t) = (Inr out, s1)" by (simp only:)
    from finishBatch_FromRun_state [OF this]
    obtain tc where rec: "foldl (reconcileStep ?mapping) (em, []) kvs = (out, tc)"
      and s1: "s1 = upsertEmbeddingCache tc ?t" by blast
    from reconcile_log [OF rec]
    obtain ws where w: "out = writeAll em ws" "tc = map snd ws"
      "\<forall>w \<in> set ws. \<exists>k. ?mapping k = Some (fst w, fst (snd w))" by auto
    have ws: "\<forall>w \<in> set ws. fst w < length chunks \<and> fst (snd w) = hash (chunks ! fst w)"
    proof
      fix x assume "x \<in> set ws"
      with w(3) obtain k where "?mapping k = Some (fst x, fst (snd x))" by blast
      from buildMapping_Some [OF this] obtain item where item: "item \<in> set missing"
        "fst x = fst item" "fst (snd x) = hash (snd item)" by auto
      from item(1) have "(fst item, snd item) \<in> set missing" by simp
      then have "fst item < length chunks \<and> snd item = chunks ! fst item"
        unfolding missing_def using in_missing [of "fst item" "snd item" cached chunks] by blast
      with item(2,3) show "fst x < length chunks \<and> fst (snd x) = hash (chunks ! fst x)" by simp
    qed
    from w(1) have w1: "out = writeAll (map (\<lambda>c. if servedFromCache (loadEmbeddingCache s (map hash chunks)) c
        then the (loadEmbeddingCache s (map hash chunks) (hash c)) else []) chunks) ws"
      unfolding em_def cached_def .
    from log_after [OF en sc ws w1 i h agree] have d: "?D s1" by (simp only: s1 w(2))
    from upsertEmbeddingCache_frame [of tc ?t] s1 obtain rows where "s1 = ?t\<lparr>db := rows\<rparr>" by auto
    with en sc have c: "cache_enabled s1" by (simp add: sameCache_def)
    from w(1) have l: "length out = length chunks" by (simp add: writeAll_length em_def)
    from d c l show ?thesis by (intro conjI)
  next
    assume "\<exists>t. sameCache s t \<and>
        runBatchWithFallback p run (embedChunksInBatches e chunks) s =
          (map_sum id FromFallback (fst (embedChunksInBatches e chunks t)),
           snd (embedChunksInBatches e chunks t))"
    then obtain t where sc: "sameCache s t"
      and rf: "runBatchWithFallback p run (embedChunksInBatches e chunks) s =
          (map_sum id FromFallback (fst (embedChunksInBatches e chunks t)),
           snd (embedChunksInBatches e chunks t))" by blast
    from res rf have "finishBatch ?mapping em
        (map_sum id FromFallback (fst (embedChunksInBatches e chunks t)),
         snd (embedChunksInBatches e chunks t)) = (Inr out, s1)" by (simp only:)
    from finishBatch_FromFallback [OF this]
    have "fst (embedChunksInBatches e chunks t) = Inr out" "snd (embedChunksInBatches e chunks t) = s1"
      by simp_all
    then have inl: "embedChunksInBatches e chunks t = (Inr out, s1)"
      by (metis prod.collapse)
    from en sc have ent: "cache_enabled t" by (simp add: sameCache_def)
    from inline_after [OF ent inl i h agree] embedChunksInBatches_Inr(1) [OF inl]
    show ?thesis by (intro conjI)
  qed
  from goal show "?D s1" and "cache_enabled s1" and "length out = length chunks" by blast+
qed


lemma openAi_after:
  assumes en: "cache_enabled s"
    and res: "embedChunksWithOpenAiBatch e chunks entry src s = (Inr out, s1)"
    and i: "i < length chunks" and h: "hash (chunks ! i) \<noteq> []"
    and agree: "\<forall>j < length chunks. hash (chunks ! j) = hash (chunks ! i) \<longrightarrow> out ! j = out ! i"
  shows "(cachedVector s1 (hash (chunks ! i)) = Some (out ! i) \<or>
          (out ! i = [] \<and> cachedVector s1 (hash (chunks ! i)) = None)) \<and>
         cache_enabled s1 \<and> length out = length chunks"
proof (cases "openAi s")
  case None
  with res have inl: "embedChunksInBatches e chunks s = (Inr out, s1)"
    by (simp add: embedChunksWithOpenAiBatch_def)
  from inline_after [OF en inl i h agree] embedChunksInBatches_Inr(1) [OF inl]
  show ?thesis by (intro conjI)
next
  case (Some cm)
  let ?cached = "loadEmbeddingCache s (map hash chunks)"
  let ?em = "map (\<lambda>c. if servedFromCache ?cached c then the (?cached (hash c)) else []) chunks"
  let ?missing = "filter (\<lambda>ic. \<not> servedFromCache ?cached (snd ic)) (zip [0..<length chunks] chunks)"
  let ?reqs = "map (\<lambda>item. \<lparr>custom_id = customId e src entry item, http_method = ''POST'',
                    body_model = cm, body_input = text' (snd item)\<rparr>) ?missing"
  show ?thesis
  proof (cases "?missing = []")
    case True
    from True Some have "embedChunksWithOpenAiBatch e chunks entry src s = (Inr ?em, s)"
      by (simp add: embedChunksWithOpenAiBatch_unfold Let_def)
    with res have "(Inr out :: js_error + vector list, s1) = (Inr ?em, s)" by (simp only:)
    then have o: "out = ?em" and s1: "s1 = s" by (simp_all only: prod.inject sum.inject)
    from hits_after [OF en o i h agree] have "cachedVector s1 (hash (chunks ! i)) = Some (out ! i) \<or>
          (out ! i = [] \<and> cachedVector s1 (hash (chunks ! i)) = None)" by (simp only: s1)
    moreover from en s1 have "cache_enabled s1" by simp
    moreover from o have "length out = length chunks" by simp
    ultimately show ?thesis by (intro conjI)
  next
    case False
    from False Some have "embedChunksWithOpenAiBatch e chunks entry src s =
        finishBatch (buildMapping e src entry ?missing) ?em
          (runBatchWithFallback ''openai'' (runOpenAi e ?reqs) (embedChunksInBatches e chunks) s)"
      by (simp add: embedChunksWithOpenAiBatch_unfold Let_def)
    with res have fb: "finishBatch (buildMapping e src entry ?missing) ?em
        (runBatchWithFallback ''openai'' (runOpenAi e ?reqs) (embedChunksInBatches e chunks) s) =
        (Inr out, s1)"
      by (simp only:)
    note b = batch_after [where run = "runOpenAi e ?reqs" and e = e and src = src and entry = entry
        and chunks = chunks and s = s and p = "''openai''" and out = out and ?s1.0 = s1,
        OF runOpenAi_keeps fb en i h agree]
    from b show ?thesis by (intro conjI)
  qed
qed

lemma gemini_after:
  assumes en: "cache_enabled s"
    and res: "embedChunksWithGeminiBatch e chunks entry src s = (Inr out, s1)"
    and i: "i < length chunks" and h: "hash (chunks ! i) \<noteq> []"
    and agree: "\<forall>j < length chunks. hash (chunks ! j) = hash (chunks ! i) \<longrightarrow> out ! j = out ! i"
  shows "(cachedVector s1 (hash (chunks ! i)) = Some (out ! i) \<or>
          (out ! i = [] \<and> cachedVector s1 (hash (chunks ! i)) = None)) \<and>
         cache_enabled s1 \<and> length out = length chunks"
proof (cases "gemini s")
  case None
  with res have inl: "embedChunksInBatches e chunks s = (Inr out, s1)"
    by (simp add: embedChunksWithGeminiBatch_def)
  from inline_after [OF en inl i h agree] embedChunksInBatches_Inr(1) [OF inl]
  show ?thesis by (intro conjI)
next
  case (Some cl)
  let ?cached = "loadEmbeddingCache s (map hash chunks)"
  let ?em = "map (\<lambda>c. if servedFromCache ?cached c then the (?cached (hash c)) else []) chunks"
  let ?missing = "filter (\<lambda>ic. \<not> servedFromCache ?cached (snd ic)) (zip [0..<length chunks] chunks)"
  let ?reqs = "map (\<lambda>item. \<lparr>g_custom_id = customId e src entry item,
        content_text = text' (snd item), taskType = ''RETRIEVAL_DOCUMENT''\<rparr>) ?missing"
  show ?thesis
  proof (cases "?missing = []")
    case True
    from True Some have "embedChunksWithGeminiBatch e chunks entry src s = (Inr ?em, s)"
      by (simp add: embedChunksWithGeminiBatch_unfold Let_def)
    with res have "(Inr out :: js_error + vector list, s1) = (Inr ?em, s)" by (simp only:)
    then have o: "out = ?em" and s1: "s1 = s" by (simp_all only: prod.inject sum.inject)
    from hits_after [OF en o i h agree] have "cachedVector s1 (hash (chunks ! i)) = Some (out ! i) \<or>
          (out ! i = [] \<and> cachedVector s1 (hash (chunks ! i)) = None)" by (simp only: s1)
    moreover from en s1 have "cache_enabled s1" by simp
    moreover from o have "length out = length chunks" by simp
    ultimately show ?thesis by (intro conjI)
  next
    case False
    from False Some have "embedChunksWithGeminiBatch e chunks entry src s =
        finishBatch (buildMapping e src entry ?missing) ?em
          (runBatchWithFallback ''gemini'' (runGemini e ?reqs) (embedChunksInBatches e chunks) s)"
      by (simp add: embedChunksWithGeminiBatch_unfold Let_def)
    with res have fb: "finishBatch (buildMapping e src entry ?missing) ?em
        (runBatchWithFallback ''gemini'' (runGemini e ?reqs) (embedChunksInBatches e chunks) s) =
        (Inr out, s1)"
      by (simp only:)
    note b = batch_after [where run = "runGemini e ?reqs" and e = e and src = src and entry = entry
        and chunks = chunks and s = s and p = "''gemini''" and out = out and ?s1.0 = s1,
        OF runGemini_keeps fb en i h agree]
    from b show ?thesis by (intro conjI)
  qed
qed

lemma file_after:
  assumes en: "cache_enabled s"
    and res: "embedChunksForFile e chunks entry src s = (Inr out, s1)"
    and i: "i < length chunks" and h: "hash (chunks ! i) \<noteq> []"
    and agree: "\<forall>j < length chunks. hash (chunks ! j) = hash (chunks ! i) \<longrightarrow> out ! j = out ! i"
  shows "(cachedVector s1 (hash (chunks ! i)) = Some (out ! i) \<or>
          (out ! i = [] \<and> cachedVector s1 (hash (chunks ! i)) = None)) \<and>
         cache_enabled s1 \<and> length out = length chunks"
proof -
  from res have "embedChunksInBatches e chunks s = (Inr out, s1) \<or>
      embedChunksWithOpenAiBatch e chunks entry src s = (Inr out, s1) \<or>
      embedChunksWithGeminiBatch e chunks entry src s = (Inr out, s1)"
    by (simp add: embedChunksForFile_def embedChunksWithBatch_def split: if_splits)
  then show ?thesis
  proof (elim disjE)
    assume inl: "embedChunksInBatches e chunks s = (Inr out, s1)"
    from inline_after [OF en inl i h agree] embedChunksInBatches_Inr(1) [OF inl]
    show ?thesis by (intro conjI)
  next
    assume "embedChunksWithOpenAiBatch e chunks entry src s = (Inr out, s1)"
    from openAi_after [OF en this i h agree] show ?thesis .
  next
    assume "embedChunksWithGeminiBatch e chunks entry src s = (Inr out, s1)"
    from gemini_after [OF en this i h agree] show ?thesis .
  qed
qed

text \<open>A call that finds every chunk in the cache, on each path.\<close>

lemma served_paths:
  assumes all: "\<forall>c \<in> set cs. servedFromCache (loadEmbeddingCache t (map hash cs)) c"
  shows "embedChunksInBatches e cs t =
           (Inr (map (\<lambda>c. the (loadEmbeddingCache t (map hash cs) (hash c))) cs), t)"
    and "embedChunksWithOpenAiBatch e cs entry src t =
           (Inr (map (\<lambda>c. the (loadEmbeddingCache t (map hash cs) (hash c))) cs), t)"
    and "embedChunksWithGeminiBatch e cs entry src t =
           (Inr (map (\<lambda>c. the (loadEmbeddingCache t (map hash cs) (hash c))) cs), t)"
    and "embedChunksForFile e cs entry src t =
           (Inr (map (\<lambda>c. the (loadEmbeddingCache t (map hash cs) (hash c))) cs), t)"
proof -
  note f = all_served_filter [OF all]
  show a: "embedChunksInBatches e cs t =
           (Inr (map (\<lambda>c. the (loadEmbeddingCache t (map hash cs) (hash c))) cs), t)"
    by (simp only: embedChunksInBatches_unfold Let_def f simp_thms if_True)
  show b: "embedChunksWithOpenAiBatch e cs entry src t =
           (Inr (map (\<lambda>c. the (loadEmbeddingCache t (map hash cs) (hash c))) cs), t)"
  proof (cases "openAi t")
    case None
    then have "embedChunksWithOpenAiBatch e cs entry src t = embedChunksInBatches e cs t"
      by (simp add: embedChunksWithOpenAiBatch_def)
    with a show ?thesis by (simp only:)
  next
    case (Some cm)
    show ?thesis by (simp only: embedChunksWithOpenAiBatch_unfold [OF Some] Let_def f simp_thms if_True)
  qed
  show c: "embedChunksWithGeminiBatch e cs entry src t =
           (Inr (map (\<lambda>c. the (loadEmbeddingCache t (map hash cs) (hash c))) cs), t)"
  proof (cases "gemini t")
    case None
    then have "embedChunksWithGeminiBatch e cs entry src t = embedChunksInBatches e cs t"
      by (simp add: embedChunksWithGeminiBatch_def)
    with a show ?thesis by (simp only:)
  next
    case (Some cl)
    show ?thesis by (simp only: embedChunksWithGeminiBatch_unfold [OF Some] Let_def f simp_thms if_True)
  qed
  have "embedChunksForFile e cs entry src t = embedChunksInBatches e cs t \<or>
      embedChunksForFile e cs entry src t = embedChunksWithOpenAiBatch e cs entry src t \<or>
      embedChunksForFile e cs entry src t = embedChunksWithGeminiBatch e cs entry src t"
    by (simp add: embedChunksForFile_def embedChunksWithBatch_def)
  with a b c show "embedChunksForFile e cs entry src t =
           (Inr (map (\<lambda>c. the (loadEmbeddingCache t (map hash cs) (hash c))) cs), t)"
    by (elim disjE) (simp_all only:)
qed


lemma not_served_calls:
  assumes "c \<in> set cs"
    and "\<not> cache_enabled t \<or> hash c = [] \<or> cachedVector t (hash c) = None \<or>
         cachedVector t (hash c) = Some []"
  shows "embedBatch_calls t < embedBatch_calls (snd (embedChunksInBatches e cs t))"
proof -
  from assms(2) have "\<not> servedFromCache (loadEmbeddingCache t (map hash cs)) c"
    by (auto simp: servedFromCache_def loadEmbeddingCache_eq)
  with assms(1) have "\<exists>c \<in> set cs. \<not> servedFromCache (loadEmbeddingCache t (map hash cs)) c" by blast
  then show ?thesis by (rule embedChunksInBatches_calls)
qed

lemma twice_one_call:
  assumes en: "cache_enabled s" and h: "hash c \<noteq> []"
    and ns: "\<not> servedFromCache (loadEmbeddingCache s [hash c]) c"
    and p: "provider_embedBatch e (embedBatch_calls s) [text' c] = Resolved (v # vs)"
    and v: "v \<noteq> []"
  shows "\<exists>t. embedChunksInBatches e [c] s = (Inr [v], t) \<and>
             embedBatch_calls t = embedBatch_calls s + 1 \<and>
             embedChunksInBatches e2 [c] t = (Inr [v], t)"
proof -
  let ?u = "s\<lparr>embedBatch_calls := embedBatch_calls s + 1\<rparr>"
  let ?t = "upsertEmbeddingCache [(hash c, v)] ?u"
  have first: "embedChunksInBatches e [c] s = (Inr [v], ?t)"
    unfolding single_miss [OF ns] retry_first [OF p] by simp
  from en have ct: "cache_enabled ?u" by simp
  from cachedVector_upsert [OF ct, of "hash c" v] have cv: "cachedVector ?t (hash c) = Some v" .
  from upsert_counters [of "[(hash c, v)]" ?u]
  have "cache_enabled ?t = cache_enabled ?u" "embedBatch_calls ?t = embedBatch_calls ?u"
    by blast+
  with ct have c1: "cache_enabled ?t" and n1: "embedBatch_calls ?t = embedBatch_calls s + 1"
    by simp_all
  from cv c1 h have "loadEmbeddingCache ?t [hash c] (hash c) = Some v"
    by (simp add: loadEmbeddingCache_eq)
  with h v have sv: "servedFromCache (loadEmbeddingCache ?t [hash c]) c"
    and th: "the (loadEmbeddingCache ?t [hash c] (hash c)) = v"
    by (simp_all add: servedFromCache_def)
  from single_hit [OF sv, of e2] th
  have second: "embedChunksInBatches e2 [c] ?t = (Inr [v], ?t)" by (simp only:)
  from first n1 second show ?thesis by blast
qed

text \<open>The cache after a first call on any path, and a second call on chunks of the first.\<close>

lemma first_after:
  assumes en: "cache_enabled s"
    and first: "embedChunksInBatches e chunks s = (Inr out, s1) \<or>
                embedChunksWithOpenAiBatch e chunks entry src s = (Inr out, s1) \<or>
                embedChunksWithGeminiBatch e chunks entry src s = (Inr out, s1) \<or>
                embedChunksForFile e chunks entry src s = (Inr out, s1)"
    and i: "i < length chunks" and h: "hash (chunks ! i) \<noteq> []"
    and agree: "\<forall>j < length chunks. hash (chunks ! j) = hash (chunks ! i) \<longrightarrow> out ! j = out ! i"
  shows "(cachedVector s1 (hash (chunks ! i)) = Some (out ! i) \<or>
          (out ! i = [] \<and> cachedVector s1 (hash (chunks ! i)) = None)) \<and>
         cache_enabled s1 \<and> length out = length chunks"
  using first
proof (elim disjE)
  assume inl: "embedChunksInBatches e chunks s = (Inr out, s1)"
  from inline_after [OF en inl i h agree] embedChunksInBatches_Inr(1) [OF inl]
  show ?thesis by (intro conjI)
next
  assume "embedChunksWithOpenAiBatch e chunks entry src s = (Inr out, s1)"
  from openAi_after [OF en this i h agree] show ?thesis .
next
  assume "embedChunksWithGeminiBatch e chunks entry src s = (Inr out, s1)"
  from gemini_after [OF en this i h agree] show ?thesis .
next
  assume "embedChunksForFile e chunks entry src s = (Inr out, s1)"
  from file_after [OF en this i h agree] show ?thesis .
qed

lemma second_call:
  assumes en: "cache_enabled s"
    and first: "embedChunksInBatches e chunks s = (Inr out, s1) \<or>
                embedChunksWithOpenAiBatch e chunks entry src s = (Inr out, s1) \<or>
                embedChunksWithGeminiBatch e chunks entry src s = (Inr out, s1) \<or>
                embedChunksForFile e chunks entry src s = (Inr out, s1)"
    and good: "\<forall>c \<in> set again. \<exists>i < length chunks.
        hash (chunks ! i) = hash c \<and> hash c \<noteq> [] \<and> out ! i \<noteq> [] \<and>
        (\<forall>j < length chunks. hash (chunks ! j) = hash c \<longrightarrow> out ! j = out ! i)"
  shows "\<forall>c \<in> set again. \<forall>j < length chunks.
           hash (chunks ! j) = hash c \<longrightarrow> cachedVector s1 (hash c) = Some (out ! j)"
    and "embedChunksInBatches e2 again s1 =
           (Inr (map (\<lambda>c. the (cachedVector s1 (hash c))) again), s1)"
    and "embedChunksWithOpenAiBatch e2 again entry2 src2 s1 =
           (Inr (map (\<lambda>c. the (cachedVector s1 (hash c))) again), s1)"
    and "embedChunksWithGeminiBatch e2 again entry2 src2 s1 =
           (Inr (map (\<lambda>c. the (cachedVector s1 (hash c))) again), s1)"
    and "embedChunksForFile e2 again entry2 src2 s1 =
           (Inr (map (\<lambda>c. the (cachedVector s1 (hash c))) again), s1)"
    and "again = chunks \<Longrightarrow> map (\<lambda>c. the (cachedVector s1 (hash c))) again = out"
proof -
  have key: "cache_enabled s1 \<and> hash c \<noteq> [] \<and> length out = length chunks \<and>
      (\<exists>v. v \<noteq> [] \<and> cachedVector s1 (hash c) = Some v \<and>
           (\<forall>j < length chunks. hash (chunks ! j) = hash c \<longrightarrow> out ! j = v))"
    if c: "c \<in> set again" for c
  proof -
    from good c obtain i where i: "i < length chunks" "hash (chunks ! i) = hash c" "hash c \<noteq> []"
      "out ! i \<noteq> []" "\<forall>j < length chunks. hash (chunks ! j) = hash c \<longrightarrow> out ! j = out ! i"
      by blast
    from i(2,3) have h: "hash (chunks ! i) \<noteq> []" by simp
    from i(5) i(2) have agree: "\<forall>j < length chunks. hash (chunks ! j) = hash (chunks ! i) \<longrightarrow>
        out ! j = out ! i" by simp
    from first_after [OF en first i(1) h agree] i(4) i(2)
    have "cachedVector s1 (hash c) = Some (out ! i)" "cache_enabled s1" "length out = length chunks"
      by auto
    with i(3,4,5) show ?thesis by blast
  qed
  show c1: "\<forall>c \<in> set again. \<forall>j < length chunks.
           hash (chunks ! j) = hash c \<longrightarrow> cachedVector s1 (hash c) = Some (out ! j)"
  proof (intro ballI allI impI)
    fix c j assume "c \<in> set again" "j < length chunks" "hash (chunks ! j) = hash c"
    with key [of c] show "cachedVector s1 (hash c) = Some (out ! j)" by auto
  qed
  have ld: "loadEmbeddingCache s1 (map hash again) (hash c) = cachedVector s1 (hash c)"
    if "c \<in> set again" for c
    using key [OF that] that by (simp add: loadEmbeddingCache_eq)
  have all: "\<forall>c \<in> set again. servedFromCache (loadEmbeddingCache s1 (map hash again)) c"
  proof
    fix c assume c: "c \<in> set again"
    from key [OF c] ld [OF c] show "servedFromCache (loadEmbeddingCache s1 (map hash again)) c"
      by (auto simp: servedFromCache_def)
  qed
  have m: "map (\<lambda>c. the (loadEmbeddingCache s1 (map hash again) (hash c))) again =
      map (\<lambda>c. the (cachedVector s1 (hash c))) again"
    by (rule map_cong [OF refl]) (simp add: ld)
  note sp = served_paths [OF all]
  from sp(1) [of e2] show "embedChunksInBatches e2 again s1 =
           (Inr (map (\<lambda>c. the (cachedVector s1 (hash c))) again), s1)" by (simp only: m)
  from sp(2) [of e2 entry2 src2] show "embedChunksWithOpenAiBatch e2 again entry2 src2 s1 =
           (Inr (map (\<lambda>c. the (cachedVector s1 (hash c))) again), s1)" by (simp only: m)
  from sp(3) [of e2 entry2 src2] show "embedChunksWithGeminiBatch e2 again entry2 src2 s1 =
           (Inr (map (\<lambda>c. the (cachedVector s1 (hash c))) again), s1)" by (simp only: m)
  from sp(4) [of e2 entry2 src2] show "embedChunksForFile e2 again entry2 src2 s1 =
           (Inr (map (\<lambda>c. the (cachedVector s1 (hash c))) again), s1)" by (simp only: m)
  show "map (\<lambda>c. the (cachedVector s1 (hash c))) again = out" if eq: "again = chunks"
  proof (cases "chunks = []")
    case True
    from first have "out = []"
      unfolding True
      by (auto simp: embedChunksInBatches_def embedChunksWithOpenAiBatch_def
          embedChunksWithGeminiBatch_def embedChunksForFile_def embedChunksWithBatch_def
          split: option.splits if_splits)
    with True eq show ?thesis by simp
  next
    case False
    then obtain c0 where "c0 \<in> set chunks" by (cases chunks) auto
    with eq key [of c0] have len: "length out = length chunks" by simp
    show ?thesis
    proof (rule nth_equalityI)
      show "length (map (\<lambda>c. the (cachedVector s1 (hash c))) again) = length out"
        using len eq by simp
    next
      fix k assume "k < length (map (\<lambda>c. the (cachedVector s1 (hash c))) again)"
      with eq have k: "k < length chunks" by simp
      with eq have "chunks ! k \<in> set again" by simp
      with c1 k have "cachedVector s1 (hash (chunks ! k)) = Some (out ! k)" by blast
      with k eq show "map (\<lambda>c. the (cachedVector s1 (hash c))) again ! k = out ! k" by simp
    qed
  qed
qed


end
